theory Spec2Isabelle
  imports Complex_Main
begin

section \<open>Errors and promise states\<close>

text \<open>
  The page facade of \<^verbatim>\<open>src/page.ts\<close> is embedded as pure functions over explicit state.
  Every way an operation of the page can fail is a value of \<open>error\<close>: the deadline
  wrapper's timeout, the remote exception thrown by \<^verbatim>\<open>evaluate\<close>, the two errors the
  JavaScript platform raises while parsing a big integer, and the \<^verbatim>\<open>Error\<close> thrown by
  \<^verbatim>\<open>close\<close> with its message.
\<close>

type_synonym exception_details = string

datatype error =
    DeadlineExceeded
  | Thrown exception_details
  | TypeError
  | SyntaxError
  | Error string

section \<open>Remote evaluation results\<close>

text \<open>
  A value that arrives as JSON. \<^verbatim>\<open>Runtime.evaluate\<close> is called with
  \<^verbatim>\<open>returnByValue: true\<close>, so \<^verbatim>\<open>result.value\<close> is JSON data when it is present.
\<close>

datatype json =
    JNull
  | JBool bool
  | JNumber real
  | JString string
  | JArray "json list"
  | JObject "(string \<times> json) list"

text \<open>What \<^verbatim>\<open>evaluate\<close> hands to its caller: \<^verbatim>\<open>undefined\<close>, a \<^verbatim>\<open>BigInt\<close>, or JSON data
  (\<open>Json JNull\<close> is JavaScript's \<^verbatim>\<open>null\<close>).\<close>

datatype js_value =
    Undefined
  | BigInt int
  | Json json

text \<open>The \<^verbatim>\<open>RemoteObject\<close> of the protocol, with the four properties \<^verbatim>\<open>evaluate\<close> reads.
  An optional property that is missing is \<open>None\<close>.\<close>

record remote_object =
  type_tag :: string
  subtype :: "string option"
  unserializableValue :: "string option"
  val :: "json option"

record evaluate_response =
  result :: remote_object
  exceptionDetails :: "exception_details option"

subsection \<open>The platform's \<^verbatim>\<open>BigInt(string)\<close>\<close>

text \<open>
  \<^verbatim>\<open>BigInt\<close> applied to a string trims white space, reads the empty string as zero, accepts
  an unsigned literal with one of the prefixes \<^verbatim>\<open>0x\<close>, \<^verbatim>\<open>0o\<close>, \<^verbatim>\<open>0b\<close>, and otherwise a
  decimal literal with an optional sign; anything else is a \<^verbatim>\<open>SyntaxError\<close>.
\<close>

definition digit_value :: "char \<Rightarrow> nat option" where
  "digit_value c =
     (let n = (of_char c :: nat) in
      if 48 \<le> n \<and> n \<le> 57 then Some (n - 48)
      else if 97 \<le> n \<and> n \<le> 102 then Some (n - 87)
      else if 65 \<le> n \<and> n \<le> 70 then Some (n - 55)
      else None)"

fun digits_value :: "nat \<Rightarrow> nat \<Rightarrow> string \<Rightarrow> nat option" where
  "digits_value base acc [] = Some acc"
| "digits_value base acc (c # cs) =
     (case digit_value c of
        None \<Rightarrow> None
      | Some d \<Rightarrow> if d < base then digits_value base (acc * base + d) cs else None)"

definition literal_value :: "nat \<Rightarrow> string \<Rightarrow> nat option" where
  "literal_value base ds = (if ds = [] then None else digits_value base 0 ds)"

definition is_white_space :: "char \<Rightarrow> bool" where
  "is_white_space c = ((of_char c :: nat) \<in> {9, 10, 11, 12, 13, 32})"

definition trim :: "string \<Rightarrow> string" where
  "trim s = rev (dropWhile is_white_space (rev (dropWhile is_white_space s)))"

definition unsigned_literal :: "nat \<Rightarrow> string \<Rightarrow> error + int" where
  "unsigned_literal base ds =
     (case literal_value base ds of None \<Rightarrow> Inl SyntaxError | Some n \<Rightarrow> Inr (int n))"

fun StringToBigInt :: "string \<Rightarrow> error + int" where
  "StringToBigInt [] = Inr 0"
| "StringToBigInt (c # cs) =
     (if c = CHR ''0'' \<and> cs \<noteq> [] \<and> hd cs \<in> {CHR ''x'', CHR ''X''} then unsigned_literal 16 (tl cs)
      else if c = CHR ''0'' \<and> cs \<noteq> [] \<and> hd cs \<in> {CHR ''o'', CHR ''O''} then unsigned_literal 8 (tl cs)
      else if c = CHR ''0'' \<and> cs \<noteq> [] \<and> hd cs \<in> {CHR ''b'', CHR ''B''} then unsigned_literal 2 (tl cs)
      else if c = CHR ''-'' then
        (case literal_value 10 cs of None \<Rightarrow> Inl SyntaxError | Some n \<Rightarrow> Inr (- int n))
      else if c = CHR ''+'' then unsigned_literal 10 cs
      else unsigned_literal 10 (c # cs))"

definition BigInt_of_string :: "string \<Rightarrow> error + int" where
  "BigInt_of_string s = StringToBigInt (trim s)"

subsection \<open>\<^verbatim>\<open>evaluate\<close>: unmarshalling the response\<close>

text \<open>
  \<^verbatim>\<open>slice(0, -1)\<close> on a string drops its last character (and keeps the empty string empty).
\<close>

definition slice_0_minus1 :: "string \<Rightarrow> string" where
  "slice_0_minus1 s = butlast s"

text \<open>
  Lines 278 to 292 of \<^verbatim>\<open>evaluate\<close>, on a response that has arrived. The non-null assertion
  \<^verbatim>\<open>result.unserializableValue!\<close> is erased at run time: calling \<^verbatim>\<open>slice\<close> on a missing
  property raises a \<^verbatim>\<open>TypeError\<close>.
\<close>

definition unmarshal :: "evaluate_response \<Rightarrow> error + js_value" where
  "unmarshal r =
     (case exceptionDetails r of
        Some details \<Rightarrow> Inl (Thrown details)
      | None \<Rightarrow>
          if type_tag (result r) = ''bigint'' then
            (case unserializableValue (result r) of
               None \<Rightarrow> Inl TypeError
             | Some s \<Rightarrow>
                 (case BigInt_of_string (slice_0_minus1 s) of
                    Inl e \<Rightarrow> Inl e
                  | Inr n \<Rightarrow> Inr (BigInt n)))
          else if type_tag (result r) = ''undefined'' then Inr Undefined
          else if type_tag (result r) = ''object'' \<and> subtype (result r) = Some ''null''
            then Inr (Json JNull)
          else (case val (result r) of None \<Rightarrow> Inr Undefined | Some v \<Rightarrow> Inr (Json v)))"

text \<open>
  \<^verbatim>\<open>evaluate\<close> awaits the deadline-wrapped \<^verbatim>\<open>Runtime.evaluate\<close> call first; the argument is
  what that await produces, a failure of the call or the response.
\<close>

definition evaluate :: "error + evaluate_response \<Rightarrow> error + js_value" where
  "evaluate rpc = (case rpc of Inl e \<Rightarrow> Inl e | Inr r \<Rightarrow> unmarshal r)"

section \<open>Closing the page\<close>

text \<open>
  \<^verbatim>\<open>Array.prototype.indexOf\<close> gives the first index of an element, or \<open>-1\<close>;
  \<^verbatim>\<open>splice(index, 1)\<close> removes the element at \<open>index\<close>.
\<close>

fun indexOf_from :: "int \<Rightarrow> 'a list \<Rightarrow> 'a \<Rightarrow> int" where
  "indexOf_from i [] x = - 1"
| "indexOf_from i (y # ys) x = (if y = x then i else indexOf_from (i + 1) ys x)"

definition indexOf :: "'a list \<Rightarrow> 'a \<Rightarrow> int" where
  "indexOf xs x = indexOf_from 0 xs x"

definition splice_1 :: "'a list \<Rightarrow> int \<Rightarrow> 'a list" where
  "splice_1 xs index = take (nat index) xs @ drop (Suc (nat index)) xs"

text \<open>
  What \<^verbatim>\<open>close\<close> touches: the page collection of the owning \<^verbatim>\<open>Browser\<close> (pages are
  identified by their ids) and the page's own protocol connection, open or closed.
\<close>

record tab =
  pages :: "string list"
  celestial_closed :: bool

text \<open>
  \<^verbatim>\<open>close\<close>, lines 184 to 199. \<^verbatim>\<open>BASE_URL\<close> is a constant of \<^verbatim>\<open>util.ts\<close> and is taken as a
  parameter, as is the HTTP endpoint \<open>fetch\<close>, which maps the requested URL to the text
  of the response. The result is the thrown error or the normal return, with the state
  after the call.
\<close>

definition close :: "string \<Rightarrow> (string \<Rightarrow> string) \<Rightarrow> string \<Rightarrow> tab \<Rightarrow> (error + unit) \<times> tab" where
  "close BASE_URL fetch this t =
     (let res = fetch (BASE_URL @ ''/json/close/'' @ this) in
      if res = ''Target is closing'' then
        (let index = indexOf (pages t) this in
         (Inr (), if index > - 1 then t\<lparr>pages := splice_1 (pages t) index\<rparr> else t))
      else
        (Inl (Error (''Page has already been closed or doesn'' @ [CHR 0x27] @ ''t exist ('' @ res @ '')'')),
         t\<lparr>celestial_closed := True\<rparr>))"

section \<open>Polling loops under a deadline\<close>

text \<open>
  JavaScript truthiness of the values \<^verbatim>\<open>evaluate\<close> can return.
\<close>

fun truthy :: "js_value \<Rightarrow> bool" where
  "truthy Undefined = False"
| "truthy (BigInt n) = (n \<noteq> 0)"
| "truthy (Json JNull) = False"
| "truthy (Json (JBool b)) = b"
| "truthy (Json (JNumber x)) = (x \<noteq> 0)"
| "truthy (Json (JString s)) = (s \<noteq> [])"
| "truthy (Json (JArray xs)) = True"
| "truthy (Json (JObject kvs)) = True"

text \<open>The page's \<^verbatim>\<open>readonly timeout = 10000\<close>, in milliseconds.\<close>

definition timeout_ms :: nat where
  "timeout_ms = 10000"

text \<open>
  A promise seen from outside: it never settles (\<open>None\<close>), or it settles at some time
  of a clock in milliseconds, with a failure or with a value.
\<close>

type_synonym 'a promise = "(nat \<times> (error + 'a)) option"

text \<open>
  Modelled from the spec: \<^verbatim>\<open>retryDeadline\<close> of \<^verbatim>\<open>util.ts\<close>, which is not among the sources
  (\<^verbatim>\<open>deadline\<close> of the standard library is used in the same way by \<^verbatim>\<open>waitForFunction\<close>).
  The deadline executor \<^verbatim>\<open>withDeadline(operation, maxWaitMs)\<close> races an operation that is
  already running against a timer of \<open>maxWaitMs\<close>: if the operation completes first its
  result or failure is returned as it is; if the timer fires first the wait fails with
  \<open>DeadlineExceeded\<close> and the operation is abandoned, not cancelled. Exactly one outcome is
  produced and the executor never hangs, so an operation that never settles gives
  \<open>DeadlineExceeded\<close>. An operation that settles at the very time the timer is due has
  lost the race.
\<close>

definition withDeadline :: "'a promise \<Rightarrow> nat \<Rightarrow> nat \<Rightarrow> error + 'a" where
  "withDeadline operation now maxWaitMs =
     (case operation of
        None \<Rightarrow> Inl DeadlineExceeded
      | Some (settled_at, outcome) \<Rightarrow>
          if settled_at < now + maxWaitMs then outcome else Inl DeadlineExceeded)"

record document =
  root_nodeId :: nat

record element_handle =
  nodeId :: nat

text \<open>
  The loop of \<^verbatim>\<open>#getRoot\<close>, lines 106 to 113, started when the clock shows \<open>now\<close>. The
  remote end is a function from the number of the call to the time that call of
  \<^verbatim>\<open>DOM.getDocument\<close> takes, which may be no time at all, and what it produces: a
  rejection, or an answer that is empty or holds the document. The loop has two exits,
  a rejected call and an answer that is not empty; it knows no deadline. It is a partial
  function: on a remote end whose answers are all empty it never returns, which is the
  value \<open>None\<close>, a promise that never settles.
\<close>

partial_function (option) getRoot_loop ::
  "(nat \<Rightarrow> nat \<times> (error + document option)) \<Rightarrow> nat \<Rightarrow> nat \<Rightarrow> document promise" where
  "getRoot_loop getDocument now i =
     (case getDocument i of
        (latency, answer) \<Rightarrow>
          (case answer of
             Inl e \<Rightarrow> Some (now + latency, Inl e)
           | Inr None \<Rightarrow> getRoot_loop getDocument (now + latency) (Suc i)
           | Inr (Some doc) \<Rightarrow> Some (now + latency, Inr doc)))"

text \<open>
  \<^verbatim>\<open>#getRoot\<close>, lines 104 to 117, called when the clock shows \<open>now\<close>: the promise of the
  loop goes to the deadline executor with the page's timeout, and the handle is made of
  the node of the document.
\<close>

definition getRoot ::
  "(nat \<Rightarrow> nat \<times> (error + document option)) \<Rightarrow> nat \<Rightarrow> error + element_handle" where
  "getRoot getDocument now =
     (case withDeadline (getRoot_loop getDocument now 0) now timeout_ms of
        Inl e \<Rightarrow> Inl e
      | Inr doc \<Rightarrow> Inr \<lparr>nodeId = root_nodeId doc\<rparr>)"

text \<open>
  The loop of \<^verbatim>\<open>waitForFunction\<close>, lines 390 to 398: each attempt is one call of
  \<^verbatim>\<open>evaluate\<close>, which takes its time and gives the failure of the call or its response. A
  failed evaluation ends the loop with that failure, a truthy result is returned,
  anything else polls again at once. This loop knows no deadline either.
\<close>

partial_function (option) waitForFunction_loop ::
  "(nat \<Rightarrow> nat \<times> (error + evaluate_response)) \<Rightarrow> nat \<Rightarrow> nat \<Rightarrow> js_value promise" where
  "waitForFunction_loop rpc now i =
     (case rpc i of
        (latency, response) \<Rightarrow>
          (case evaluate response of
             Inl e \<Rightarrow> Some (now + latency, Inl e)
           | Inr polled \<Rightarrow>
               if truthy polled then Some (now + latency, Inr polled)
               else waitForFunction_loop rpc (now + latency) (Suc i)))"

text \<open>
  \<^verbatim>\<open>waitForFunction\<close>, lines 384 to 401: the promise of the loop goes to \<^verbatim>\<open>deadline\<close> with
  the page's timeout, the result is awaited, and the function body ends there, without
  a \<^verbatim>\<open>return\<close>.
\<close>

definition waitForFunction ::
  "(nat \<Rightarrow> nat \<times> (error + evaluate_response)) \<Rightarrow> nat \<Rightarrow> error + js_value" where
  "waitForFunction rpc now =
     (case withDeadline (waitForFunction_loop rpc now 0) now timeout_ms of
        Inl e \<Rightarrow> Inl e
      | Inr polled \<Rightarrow> Inr Undefined)"

section \<open>The event loop of a page\<close>

text \<open>
  The waits of the page are callbacks on three sources of events: events of the protocol
  client, timers, and the settling of promises. They are embedded as functions on an
  explicit state of the page, and the event loop as a function that feeds a list of
  inputs to that state. A promise is its state; the only rejection that occurs in the
  waits is the deadline's.
\<close>

datatype settle = Pending | Resolved | Rejected

text \<open>
  The closures the page registers on the protocol client: \<^verbatim>\<open>callback\<close> of
  \<^verbatim>\<open>waitForNavigation\<close>, and \<^verbatim>\<open>requestStarted\<close> and \<^verbatim>\<open>requestFinished\<close> of
  \<^verbatim>\<open>waitForNetworkIdle\<close>.
\<close>

datatype callback = Callback | RequestStarted | RequestFinished

text \<open>The four places where the page wraps a promise in the deadline executor.\<close>

datatype wrapped = LoadWait | IdleWait | NavigationWait | Command

text \<open>What a timer runs when it fires: \<^verbatim>\<open>timeoutDone\<close>, or the rejection of a deadline.\<close>

datatype task = TimeoutDone | DeadlineTimer wrapped

datatype waitUntil = Load | Networkidle0 | Networkidle2

text \<open>\<^verbatim>\<open>WaitForOptions\<close> and \<^verbatim>\<open>WaitForNetworkIdleOptions\<close>; a property left out is \<open>None\<close>.
  \<^verbatim>\<open>GoToOptions\<close> adds the referrer.\<close>

record wait_options =
  opt_waitUntil :: "waitUntil option"

record goto_options =
  goto_waitUntil :: "waitUntil option"
  goto_referrer :: "string option"

record idle_options =
  opt_idleTime :: "nat option"
  opt_idleConnections :: "nat option"

text \<open>
  The variables one call of \<^verbatim>\<open>waitForNetworkIdle\<close> closes over: the two options, the
  handle in \<^verbatim>\<open>timeout\<close>, the counter \<^verbatim>\<open>inflight\<close> (a JavaScript number, so an integer
  that the type does not keep from going negative), the promise that \<^verbatim>\<open>timeoutDone\<close>
  resolves, and the promise the deadline executor returns for it. The threshold and the
  idle time count connections and milliseconds.
\<close>

record idle_closure =
  idleTime :: nat
  idleConnections :: nat
  timeout :: nat
  inflight :: int
  idle_promise :: settle
  idle_deadline :: settle

text \<open>The promise \<^verbatim>\<open>callback\<close> resolves, and the promise the deadline executor returns for it.\<close>

record load_closure =
  load_promise :: settle
  load_deadline :: settle

text \<open>
  A call of \<^verbatim>\<open>waitForNavigation\<close> with a criterion other than \<^verbatim>\<open>load\<close>: the criterion, the
  deadline-wrapped promise of lines 413 to 437 once the call has come that far, and the
  promise the asynchronous function returned to its caller.
\<close>

record navigation_call =
  nav_waitUntil :: "waitUntil option"
  nav_deadline :: "settle option"
  nav_returned :: settle

text \<open>
  A call of \<^verbatim>\<open>goto\<close> or \<^verbatim>\<open>reload\<close>: the deadline-wrapped command, and the promise of
  \<^verbatim>\<open>Promise.all\<close> with the number of its elements that are still to be fulfilled.
\<close>

record goto_call =
  command_deadline :: settle
  all_remaining :: nat
  all_promise :: settle

datatype command = Page_navigate string "waitUntil option" "string option" | Page_reload

text \<open>
  The page: a clock in milliseconds, the listeners of the protocol client in the order
  of their registration, the armed timers (handle, time due, task), the next timer
  handle, the commands sent, and the calls in progress.
\<close>

record page =
  clock :: nat
  listeners :: "(string \<times> callback) list"
  timers :: "(nat \<times> nat \<times> task) list"
  next_handle :: nat
  sent :: "command list"
  idle :: "idle_closure option"
  load :: "load_closure option"
  navigation :: "navigation_call option"
  goto :: "goto_call option"

definition new_page :: page where
  "new_page = \<lparr>clock = 0, listeners = [], timers = [], next_handle = 0, sent = [],
     idle = None, load = None, navigation = None, goto = None\<rparr>"

subsection \<open>The platform: event targets and timers\<close>

text \<open>
  \<^verbatim>\<open>EventTarget\<close>: a listener is a callback under an event type; adding one that is there
  already changes nothing, removing takes away the listener with that very type and
  callback, and an event of a type is dispatched to the callbacks registered under that
  type.
\<close>

definition addEventListener :: "string \<Rightarrow> callback \<Rightarrow> page \<Rightarrow> page" where
  "addEventListener type cb s =
     (if (type, cb) \<in> set (listeners s) then s
      else s\<lparr>listeners := listeners s @ [(type, cb)]\<rparr>)"

definition removeEventListener :: "string \<Rightarrow> callback \<Rightarrow> page \<Rightarrow> page" where
  "removeEventListener type cb s = s\<lparr>listeners := removeAll (type, cb) (listeners s)\<rparr>"

text \<open>
  \<^verbatim>\<open>setTimeout\<close> arms a timer and returns its handle; \<^verbatim>\<open>clearTimeout\<close> disarms the timer
  with that handle, if it is still armed.
\<close>

definition setTimeout :: "task \<Rightarrow> nat \<Rightarrow> page \<Rightarrow> nat \<times> page" where
  "setTimeout k delay s =
     (next_handle s,
      s\<lparr>timers := timers s @ [(next_handle s, clock s + delay, k)],
        next_handle := Suc (next_handle s)\<rparr>)"

definition clearTimeout :: "nat \<Rightarrow> page \<Rightarrow> page" where
  "clearTimeout h s = s\<lparr>timers := filter (\<lambda>x. fst x \<noteq> h) (timers s)\<rparr>"

subsection \<open>The deadline executor\<close>

text \<open>
  Modelled from the spec: \<^verbatim>\<open>retryDeadline\<close> of \<^verbatim>\<open>util.ts\<close>, which is not among the sources.
  The executor races the operation against a timer of the page's timeout. It is given
  the promise and the time only. If the operation completes first the outcome is the
  operation's and the timer is cleared; if the timer fires first the wait fails with
  \<open>DeadlineExceeded\<close>, which is the state \<open>Rejected\<close> of the wrapped promise.
\<close>

definition retryDeadline :: "wrapped \<Rightarrow> page \<Rightarrow> page" where
  "retryDeadline w s = snd (setTimeout (DeadlineTimer w) timeout_ms s)"

definition clearDeadline :: "wrapped \<Rightarrow> page \<Rightarrow> page" where
  "clearDeadline w s = s\<lparr>timers := filter (\<lambda>x. snd (snd x) \<noteq> DeadlineTimer w) (timers s)\<rparr>"

subsection \<open>Reactions to promises\<close>

text \<open>
  \<^verbatim>\<open>Promise.all\<close> over the two promises of \<^verbatim>\<open>goto\<close> and \<^verbatim>\<open>reload\<close>: a rejection rejects
  it, and the fulfilment of its last pending element fulfils it; once settled it stays.
\<close>

definition all_settled :: "settle \<Rightarrow> page \<Rightarrow> page" where
  "all_settled outcome s =
     (case goto s of
        None \<Rightarrow> s
      | Some g \<Rightarrow>
          if all_promise g \<noteq> Pending then s
          else if outcome = Rejected then s\<lparr>goto := Some (g\<lparr>all_promise := Rejected\<rparr>)\<rparr>
          else s\<lparr>goto := Some (g\<lparr>all_remaining := all_remaining g - 1,
                  all_promise := (if all_remaining g - 1 = 0 then Resolved else Pending)\<rparr>)\<rparr>)"

text \<open>The deadline-wrapped command of \<^verbatim>\<open>goto\<close> or \<^verbatim>\<open>reload\<close> settles.\<close>

definition command_settled :: "settle \<Rightarrow> page \<Rightarrow> page" where
  "command_settled outcome s =
     (case goto s of
        None \<Rightarrow> s
      | Some g \<Rightarrow>
          if command_deadline g \<noteq> Pending then s
          else all_settled outcome
                 ((if outcome = Resolved then clearDeadline Command else id)
                    (s\<lparr>goto := Some (g\<lparr>command_deadline := outcome\<rparr>)\<rparr>)))"

text \<open>The asynchronous function \<^verbatim>\<open>waitForNavigation\<close>, called with a criterion other than
  \<^verbatim>\<open>load\<close>, returns or throws.\<close>

definition navigation_returned :: "settle \<Rightarrow> page \<Rightarrow> page" where
  "navigation_returned outcome s =
     (case navigation s of
        None \<Rightarrow> s
      | Some n \<Rightarrow>
          if nav_returned n \<noteq> Pending then s
          else all_settled outcome (s\<lparr>navigation := Some (n\<lparr>nav_returned := outcome\<rparr>)\<rparr>))"

text \<open>The promise of lines 413 to 437 settles, for a criterion other than \<^verbatim>\<open>load\<close>.\<close>

definition navigation_deadline_settled :: "settle \<Rightarrow> page \<Rightarrow> page" where
  "navigation_deadline_settled outcome s =
     (case navigation s of
        None \<Rightarrow> s
      | Some n \<Rightarrow>
          if nav_deadline n \<noteq> Some Pending then s
          else navigation_returned outcome
                 ((if outcome = Resolved then clearDeadline NavigationWait else id)
                    (s\<lparr>navigation := Some (n\<lparr>nav_deadline := Some outcome\<rparr>)\<rparr>)))"

text \<open>
  The promise \<^verbatim>\<open>waitForNetworkIdle\<close> returned settles. Its only reaction is the
  \<^verbatim>\<open>then\<close> of lines 425 and 429, which resolves the promise of \<^verbatim>\<open>waitForNavigation\<close>; a
  rejection has no handler there.
\<close>

definition idle_deadline_settled :: "settle \<Rightarrow> page \<Rightarrow> page" where
  "idle_deadline_settled outcome s =
     (case idle s of
        None \<Rightarrow> s
      | Some v \<Rightarrow>
          if idle_deadline v \<noteq> Pending then s
          else if outcome = Resolved
            then navigation_deadline_settled Resolved
                   (clearDeadline IdleWait (s\<lparr>idle := Some (v\<lparr>idle_deadline := Resolved\<rparr>)\<rparr>))
            else s\<lparr>idle := Some (v\<lparr>idle_deadline := outcome\<rparr>)\<rparr>)"

subsection \<open>\<^verbatim>\<open>waitForNetworkIdle\<close>\<close>

text \<open>\<^verbatim>\<open>resolve()\<close> of the promise of line 448: a second call changes nothing.\<close>

definition resolve_idle :: "page \<Rightarrow> page" where
  "resolve_idle s =
     (case idle s of
        None \<Rightarrow> s
      | Some v \<Rightarrow>
          if idle_promise v \<noteq> Pending then s
          else idle_deadline_settled Resolved (s\<lparr>idle := Some (v\<lparr>idle_promise := Resolved\<rparr>)\<rparr>))"

text \<open>\<^verbatim>\<open>timeoutDone\<close>, lines 449 to 463, with the event names as the source spells them.\<close>

definition timeoutDone :: "page \<Rightarrow> page" where
  "timeoutDone s =
     resolve_idle
       (removeEventListener ''Network_loadingFinished'' RequestFinished
         (removeEventListener ''Network_loadingFailed'' RequestFinished
           (removeEventListener ''Network_requestWillBeSent'' RequestStarted s)))"

text \<open>\<^verbatim>\<open>requestStarted\<close>, lines 469 to 474.\<close>

definition requestStarted :: "page \<Rightarrow> page" where
  "requestStarted s =
     (case idle s of
        None \<Rightarrow> s
      | Some v \<Rightarrow>
          (let s1 = s\<lparr>idle := Some (v\<lparr>inflight := inflight v + 1\<rparr>)\<rparr> in
           if inflight v + 1 > int (idleConnections v) then clearTimeout (timeout v) s1 else s1))"

text \<open>\<^verbatim>\<open>requestFinished\<close>, lines 476 to 482.\<close>

definition requestFinished :: "page \<Rightarrow> page" where
  "requestFinished s =
     (case idle s of
        None \<Rightarrow> s
      | Some v \<Rightarrow>
          if inflight v = 0 then s
          else if inflight v - 1 = int (idleConnections v) then
            (case setTimeout TimeoutDone (idleTime v) s of
               (h, s1) \<Rightarrow> s1\<lparr>idle := Some (v\<lparr>inflight := inflight v - 1, timeout := h\<rparr>)\<rparr>)
          else s\<lparr>idle := Some (v\<lparr>inflight := inflight v - 1\<rparr>)\<rparr>)"

text \<open>
  \<^verbatim>\<open>waitForNetworkIdle\<close>, lines 443 to 499: the executor of the promise arms the idle timer,
  sets the counter to zero and registers the three listeners; then the deadline executor
  wraps the promise.
\<close>

definition waitForNetworkIdle :: "idle_options option \<Rightarrow> page \<Rightarrow> page" where
  "waitForNetworkIdle options s =
     (let t = (case options of None \<Rightarrow> 500
               | Some opts \<Rightarrow> (case opt_idleTime opts of None \<Rightarrow> 500 | Some x \<Rightarrow> x));
          c = (case options of None \<Rightarrow> 0
               | Some opts \<Rightarrow> (case opt_idleConnections opts of None \<Rightarrow> 0 | Some x \<Rightarrow> x))
      in case setTimeout TimeoutDone t s of
           (h, s1) \<Rightarrow>
             retryDeadline IdleWait
               (addEventListener ''Network.loadingFinished'' RequestFinished
                 (addEventListener ''Network.loadingFailed'' RequestFinished
                   (addEventListener ''Network.requestWillBeSent'' RequestStarted
                     (s1\<lparr>idle := Some \<lparr>idleTime = t, idleConnections = c, timeout = h,
                         inflight = 0, idle_promise = Pending, idle_deadline = Pending\<rparr>\<rparr>)))))"

subsection \<open>\<^verbatim>\<open>waitForNavigation\<close>\<close>

text \<open>
  Lines 413 to 437, the part of \<^verbatim>\<open>waitForNavigation\<close> after its \<^verbatim>\<open>if\<close>: the executor of
  the promise takes one of three branches on the criterion, and the deadline executor
  wraps the promise. In the first branch the promise is the one \<^verbatim>\<open>callback\<close> resolves;
  in the other two it is resolved by the \<^verbatim>\<open>then\<close> on the idle wait.
\<close>

definition waitForNavigation_promise :: "waitUntil option \<Rightarrow> page \<Rightarrow> page" where
  "waitForNavigation_promise w s =
     (if w = Some Load then
        retryDeadline LoadWait
          (addEventListener ''Page.loadEventFired'' Callback
            (s\<lparr>load := Some \<lparr>load_promise = Pending, load_deadline = Pending\<rparr>\<rparr>))
      else if w = Some Networkidle0 then
        (let s1 = retryDeadline NavigationWait
                    (waitForNetworkIdle
                      (Some \<lparr>opt_idleTime = Some 500, opt_idleConnections = None\<rparr>) s)
         in s1\<lparr>navigation := map_option (\<lambda>n. n\<lparr>nav_deadline := Some Pending\<rparr>) (navigation s1)\<rparr>)
      else
        (let s1 = retryDeadline NavigationWait
                    (waitForNetworkIdle
                      (Some \<lparr>opt_idleTime = Some 500, opt_idleConnections = Some 2\<rparr>) s)
         in s1\<lparr>navigation := map_option (\<lambda>n. n\<lparr>nav_deadline := Some Pending\<rparr>) (navigation s1)\<rparr>))"

text \<open>
  The promise of the \<^verbatim>\<open>load\<close> wait settles. When a call with another criterion is
  suspended at the \<^verbatim>\<open>await\<close> of line 410 it resumes: with lines 413 to 437 when the load
  wait resolved, by throwing when it was rejected. Otherwise the load wait is the promise
  the caller holds.
\<close>

definition load_deadline_settled :: "settle \<Rightarrow> page \<Rightarrow> page" where
  "load_deadline_settled outcome s =
     (case load s of
        None \<Rightarrow> s
      | Some l \<Rightarrow>
          if load_deadline l \<noteq> Pending then s
          else
            (let s1 = (if outcome = Resolved then clearDeadline LoadWait else id)
                        (s\<lparr>load := Some (l\<lparr>load_deadline := outcome\<rparr>)\<rparr>)
             in case navigation s1 of
                  None \<Rightarrow> all_settled outcome s1
                | Some n \<Rightarrow>
                    if outcome = Resolved then waitForNavigation_promise (nav_waitUntil n) s1
                    else navigation_returned outcome s1))"

text \<open>
  \<^verbatim>\<open>callback\<close>, lines 416 to 422: \<^verbatim>\<open>resolve()\<close>, then \<^verbatim>\<open>removeEventListener\<close> with the event
  name as the source spells it; the reaction to the resolved promise runs after the
  callback has returned.
\<close>

definition callback :: "page \<Rightarrow> page" where
  "callback s =
     (case load s of
        None \<Rightarrow> s
      | Some l \<Rightarrow>
          (let s1 = removeEventListener ''Page_loadEventFired'' Callback
                      (s\<lparr>load := Some (l\<lparr>load_promise := Resolved\<rparr>)\<rparr>)
           in if load_promise l = Pending then load_deadline_settled Resolved s1 else s1))"

text \<open>
  \<^verbatim>\<open>waitForNavigation\<close>, lines 406 to 438, up to its first suspension. With the criterion
  \<^verbatim>\<open>load\<close> it is lines 413 to 437. With another criterion it calls itself with
  \<^verbatim>\<open>load\<close> and awaits that promise; the rest of the call is in \<open>load_deadline_settled\<close>.
\<close>

definition waitForNavigation :: "wait_options option \<Rightarrow> page \<Rightarrow> page" where
  "waitForNavigation options s =
     (let opts = (case options of None \<Rightarrow> \<lparr>opt_waitUntil = Some Networkidle2\<rparr> | Some x \<Rightarrow> x) in
      if opt_waitUntil opts \<noteq> Some Load then
        (waitForNavigation_promise (Some Load) s)
          \<lparr>navigation := Some \<lparr>nav_waitUntil = opt_waitUntil opts, nav_deadline = None,
             nav_returned = Pending\<rparr>\<rparr>
      else waitForNavigation_promise (opt_waitUntil opts) s)"

subsection \<open>\<^verbatim>\<open>goto\<close> and \<^verbatim>\<open>reload\<close>\<close>

text \<open>
  Lines 312 to 321 and 349 to 354: the elements of the array are evaluated in order, the
  command first, and \<^verbatim>\<open>Promise.all\<close> is awaited.
\<close>

definition goto_page :: "string \<Rightarrow> goto_options option \<Rightarrow> page \<Rightarrow> page" where
  "goto_page url options s =
     (let opts = (case options of None \<Rightarrow> \<lparr>goto_waitUntil = None, goto_referrer = None\<rparr>
                  | Some x \<Rightarrow> x);
          s1 = retryDeadline Command
                 (s\<lparr>sent := sent s @ [Page_navigate url (goto_waitUntil opts) (goto_referrer opts)]\<rparr>);
          s2 = waitForNavigation (Some \<lparr>opt_waitUntil = goto_waitUntil opts\<rparr>) s1
      in s2\<lparr>goto := Some \<lparr>command_deadline = Pending, all_remaining = 2, all_promise = Pending\<rparr>\<rparr>)"

definition reload :: "wait_options option \<Rightarrow> page \<Rightarrow> page" where
  "reload options s =
     (let s1 = retryDeadline Command (s\<lparr>sent := sent s @ [Page_reload]\<rparr>);
          s2 = waitForNavigation options s1
      in s2\<lparr>goto := Some \<lparr>command_deadline = Pending, all_remaining = 2, all_promise = Pending\<rparr>\<rparr>)"

subsection \<open>The loop\<close>

text \<open>
  An input of the loop: the protocol client dispatches an event of a type, the response
  to the command of \<^verbatim>\<open>goto\<close> or \<^verbatim>\<open>reload\<close> arrives, or time passes.
\<close>

datatype input = Deliver string | Response | Elapse nat

fun run_callback :: "callback \<Rightarrow> page \<Rightarrow> page" where
  "run_callback Callback s = callback s"
| "run_callback RequestStarted s = requestStarted s"
| "run_callback RequestFinished s = requestFinished s"

text \<open>An event goes to the callbacks registered under its type when it is dispatched,
  in their order, and not to one that an earlier callback has removed.\<close>

definition invoke :: "string \<Rightarrow> callback \<Rightarrow> page \<Rightarrow> page" where
  "invoke type cb s = (if (type, cb) \<in> set (listeners s) then run_callback cb s else s)"

definition dispatchEvent :: "string \<Rightarrow> page \<Rightarrow> page" where
  "dispatchEvent type s =
     fold (invoke type) (map snd (filter (\<lambda>l. fst l = type) (listeners s))) s"

fun run_task :: "task \<Rightarrow> page \<Rightarrow> page" where
  "run_task TimeoutDone s = timeoutDone s"
| "run_task (DeadlineTimer LoadWait) s = load_deadline_settled Rejected s"
| "run_task (DeadlineTimer IdleWait) s = idle_deadline_settled Rejected s"
| "run_task (DeadlineTimer NavigationWait) s = navigation_deadline_settled Rejected s"
| "run_task (DeadlineTimer Command) s = command_settled Rejected s"

text \<open>
  A timer that is still armed fires: the clock is at its due time, the timer is no
  longer armed, and its task runs.
\<close>

definition fire :: "nat \<times> nat \<times> task \<Rightarrow> page \<Rightarrow> page" where
  "fire x s =
     (if x \<in> set (timers s)
      then run_task (snd (snd x)) (clearTimeout (fst x) (s\<lparr>clock := max (clock s) (fst (snd x))\<rparr>))
      else s)"

text \<open>
  Time passes: the timers due in that time fire in the order of their due times, timers
  due at the same time in the order they were armed. No task of the page arms a timer,
  so the timers due are those armed when the time starts to pass.
\<close>

definition elapse :: "nat \<Rightarrow> page \<Rightarrow> page" where
  "elapse d s =
     (fold fire (sort_key (\<lambda>x. fst (snd x)) (filter (\<lambda>x. fst (snd x) \<le> clock s + d) (timers s))) s)
       \<lparr>clock := clock s + d\<rparr>"

fun step :: "input \<Rightarrow> page \<Rightarrow> page" where
  "step (Deliver type) s = dispatchEvent type s"
| "step Response s = command_settled Resolved s"
| "step (Elapse d) s = elapse d s"

definition run :: "input list \<Rightarrow> page \<Rightarrow> page" where
  "run ins s = fold step ins s"

text \<open>The calls a caller of the page can make, on a page with no call in progress.\<close>

datatype call =
    WaitForNetworkIdle "idle_options option"
  | WaitForNavigation "wait_options option"
  | Goto string "goto_options option"
  | Reload "wait_options option"

fun start :: "call \<Rightarrow> page \<Rightarrow> page" where
  "start (WaitForNetworkIdle options) s = waitForNetworkIdle options s"
| "start (WaitForNavigation options) s = waitForNavigation options s"
| "start (Goto url options) s = goto_page url options s"
| "start (Reload options) s = reload options s"

text \<open>The criterion a call of \<^verbatim>\<open>waitForNavigation\<close> works with, and the one \<^verbatim>\<open>goto\<close> and
  \<^verbatim>\<open>reload\<close> pass on.\<close>

definition criterion :: "wait_options option \<Rightarrow> waitUntil option" where
  "criterion options = (case options of None \<Rightarrow> Some Networkidle2 | Some x \<Rightarrow> opt_waitUntil x)"

text \<open>The state of the promise a call of \<^verbatim>\<open>waitForNavigation\<close> gave to its caller.\<close>

definition navigation_promise :: "page \<Rightarrow> settle" where
  "navigation_promise s =
     (case navigation s of
        Some n \<Rightarrow> nav_returned n
      | None \<Rightarrow> (case load s of Some l \<Rightarrow> load_deadline l | None \<Rightarrow> Pending))"

subsection \<open>Observations on a page\<close>

text \<open>The handles of the armed timers that will run \<^verbatim>\<open>timeoutDone\<close>: the idle timers.\<close>

definition idle_handles :: "page \<Rightarrow> nat list" where
  "idle_handles s = map fst (filter (\<lambda>x. snd (snd x) = TimeoutDone) (timers s))"

text \<open>
  The shape every state of the loop has. The handles of the armed timers are distinct
  and below the next handle. An armed idle timer is the one whose handle is in
  \<^verbatim>\<open>timeout\<close>, and it is armed only with the counter at or below the threshold, and
  always so while the promise of the wait is pending; the counter is not negative. A call of \<^verbatim>\<open>waitForNavigation\<close>
  that is suspended has a criterion other than \<^verbatim>\<open>load\<close>, and no idle wait exists before
  its load wait has settled.
\<close>

definition timers_ok :: "page \<Rightarrow> bool" where
  "timers_ok s =
     (distinct (map fst (timers s)) \<and> list_all (\<lambda>x. fst x < next_handle s) (timers s))"

definition idle_ok :: "page \<Rightarrow> bool" where
  "idle_ok s =
     (case idle s of
        None \<Rightarrow> idle_handles s = []
      | Some v \<Rightarrow>
          list_all (\<lambda>h. h = timeout v) (idle_handles s) \<and>
          (idle_handles s = [] \<or> inflight v \<le> int (idleConnections v)) \<and>
          (idle_promise v \<noteq> Pending \<or> int (idleConnections v) < inflight v \<or> idle_handles s \<noteq> []) \<and>
          0 \<le> inflight v)"

definition navigation_ok :: "page \<Rightarrow> bool" where
  "navigation_ok s =
     (case navigation s of
        None \<Rightarrow> True
      | Some n \<Rightarrow>
          nav_waitUntil n \<noteq> Some Load \<and>
          (case load s of
             None \<Rightarrow> False
           | Some l \<Rightarrow> load_deadline l \<noteq> Pending \<or> idle s = None))"

definition inv :: "page \<Rightarrow> bool" where
  "inv s = (timers_ok s \<and> idle_ok s \<and> navigation_ok s)"

text \<open>
  A reaction to a settled promise leaves this much of the page as it was: it settles
  promises of the calls and clears deadline timers, nothing else.
\<close>

definition idle_core :: "idle_closure \<Rightarrow> nat \<times> nat \<times> nat \<times> int \<times> settle" where
  "idle_core v = (idleTime v, idleConnections v, timeout v, inflight v, idle_promise v)"

definition calm :: "page \<Rightarrow> page \<Rightarrow> bool" where
  "calm s s' =
     (map_option idle_core (idle s') = map_option idle_core (idle s) \<and>
      load s' = load s \<and> listeners s' = listeners s \<and> next_handle s' = next_handle s \<and>
      clock s' = clock s \<and> sent s' = sent s \<and>
      map_option nav_waitUntil (navigation s') = map_option nav_waitUntil (navigation s) \<and>
      idle_handles s' = idle_handles s \<and>
      (\<exists>ws. timers s' = filter (\<lambda>x. snd (snd x) \<notin> DeadlineTimer ` set ws) (timers s)))"

text \<open>
  The listeners a wait has registered are on the protocol client: those of the idle wait
  once there is one, and that of the load wait once there is one.
\<close>

definition subscribed :: "page \<Rightarrow> bool" where
  "subscribed s =
     ((idle s = None \<or>
        list_all (\<lambda>l. l \<in> set (listeners s))
          [(''Network.requestWillBeSent'', RequestStarted),
           (''Network.loadingFailed'', RequestFinished),
           (''Network.loadingFinished'', RequestFinished)]) \<and>
      (load s = None \<or> (''Page.loadEventFired'', Callback) \<in> set (listeners s)))"

text \<open>
  The order of the two phases of a call of \<^verbatim>\<open>waitForNavigation\<close> with the criterion
  \<open>w\<close>, other than \<^verbatim>\<open>load\<close>: there is a load wait; until it has resolved there is no
  idle wait and the call has neither reached lines 413 to 437 nor returned; once it has
  resolved there is an idle wait with the idle time 500 and the threshold of the
  criterion, and the call has returned only if that idle wait has resolved.
\<close>

definition navigation_order :: "waitUntil option \<Rightarrow> page \<Rightarrow> bool" where
  "navigation_order w s =
     (case navigation s of
        None \<Rightarrow> False
      | Some n \<Rightarrow>
          nav_waitUntil n = w \<and> w \<noteq> Some Load \<and>
          (case load s of
             None \<Rightarrow> False
           | Some l \<Rightarrow>
               (case idle s of
                  None \<Rightarrow>
                    load_deadline l \<noteq> Resolved \<and> nav_deadline n = None \<and>
                    nav_returned n \<noteq> Resolved
                | Some v \<Rightarrow>
                    load_deadline l = Resolved \<and> nav_deadline n \<noteq> None \<and>
                    idleTime v = 500 \<and>
                    idleConnections v = (if w = Some Networkidle0 then 0 else 2) \<and>
                    (nav_returned n \<noteq> Resolved \<or>
                     idle_deadline v = Resolved \<and> nav_deadline n = Some Resolved))))"

text \<open>
  The promise of \<^verbatim>\<open>Promise.all\<close> in \<^verbatim>\<open>goto\<close> and \<^verbatim>\<open>reload\<close> against its two elements, the
  deadline-wrapped command and the promise of \<^verbatim>\<open>waitForNavigation\<close>: fulfilled with both
  fulfilled, rejected with one of them rejected, and pending with neither rejected and
  as many still to be fulfilled as it counts.
\<close>

definition all_ok :: "page \<Rightarrow> bool" where
  "all_ok s =
     (case goto s of
        None \<Rightarrow> False
      | Some g \<Rightarrow>
          (case all_promise g of
             Resolved \<Rightarrow> command_deadline g = Resolved \<and> navigation_promise s = Resolved
           | Rejected \<Rightarrow> command_deadline g = Rejected \<or> navigation_promise s = Rejected
           | Pending \<Rightarrow>
               settle.Rejected \<notin> {command_deadline g, navigation_promise s} \<and>
               all_remaining g =
                 (if command_deadline g = Resolved then 0 else 1) +
                 (if navigation_promise s = Resolved then 0 else 1) \<and>
               0 < all_remaining g))"

text \<open>The time that passes over a list of inputs.\<close>

fun elapsed :: "input list \<Rightarrow> nat" where
  "elapsed [] = 0"
| "elapsed (Elapse d # ins) = d + elapsed ins"
| "elapsed (Deliver type # ins) = elapsed ins"
| "elapsed (Response # ins) = elapsed ins"

text \<open>
  The states of a page whose only call is a \<^verbatim>\<open>waitForNetworkIdle\<close> with the idle time
  \<open>t\<close> and the threshold \<open>c\<close>, as long as no request has started: the clock, whether
  the idle timer has fired, and whether the deadline had passed before it did.
\<close>

definition idle_wait_state :: "nat \<Rightarrow> nat \<Rightarrow> nat \<Rightarrow> bool \<Rightarrow> bool \<Rightarrow> page" where
  "idle_wait_state t c k fired late =
     \<lparr>clock = k,
      listeners = [(''Network.requestWillBeSent'', RequestStarted),
                   (''Network.loadingFailed'', RequestFinished),
                   (''Network.loadingFinished'', RequestFinished)],
      timers = (if fired then [] else [(0, t, TimeoutDone)]) @
               (if fired \<or> late then [] else [(1, timeout_ms, DeadlineTimer IdleWait)]),
      next_handle = 2, sent = [],
      idle = Some \<lparr>idleTime = t, idleConnections = c, timeout = 0, inflight = 0,
               idle_promise = (if fired then Resolved else Pending),
               idle_deadline = (if late then Rejected else if fired then Resolved else Pending)\<rparr>,
      load = None, navigation = None, goto = None\<rparr>"

section \<open>Properties of \<^verbatim>\<open>evaluate\<close>\<close>

text \<open>
  Claim C3. For every response of a remote evaluation, \<^verbatim>\<open>evaluate\<close> unmarshals in this
  order: reported exception details make the call fail with those details; otherwise a
  result tagged \<^verbatim>\<open>bigint\<close> has the last character of its string encoding dropped and the
  rest parsed as a big integer; otherwise a result tagged \<^verbatim>\<open>undefined\<close> gives
  \<^verbatim>\<open>undefined\<close>; otherwise a result tagged \<^verbatim>\<open>object\<close> with subtype \<^verbatim>\<open>null\<close> gives
  \<^verbatim>\<open>null\<close>; otherwise the transported value is returned as it is.
\<close>

theorem evaluate_unmarshalling_precedence:
  "(exceptionDetails r = Some d \<longrightarrow> evaluate (Inr r) = Inl (Thrown d)) \<and>
   (exceptionDetails r = None \<and> type_tag (result r) = ''bigint'' \<and>
      unserializableValue (result r) = Some s \<longrightarrow>
        evaluate (Inr r) =
          (case BigInt_of_string (butlast s) of Inl e \<Rightarrow> Inl e | Inr n \<Rightarrow> Inr (BigInt n))) \<and>
   (exceptionDetails r = None \<and> type_tag (result r) = ''undefined'' \<longrightarrow>
        evaluate (Inr r) = Inr Undefined) \<and>
   (exceptionDetails r = None \<and> type_tag (result r) = ''object'' \<and>
      subtype (result r) = Some ''null'' \<longrightarrow>
        evaluate (Inr r) = Inr (Json JNull)) \<and>
   (exceptionDetails r = None \<and> type_tag (result r) \<noteq> ''bigint'' \<and>
      type_tag (result r) \<noteq> ''undefined'' \<and>
      \<not> (type_tag (result r) = ''object'' \<and> subtype (result r) = Some ''null'') \<longrightarrow>
        evaluate (Inr r) =
          (case val (result r) of None \<Rightarrow> Inr Undefined | Some v \<Rightarrow> Inr (Json v)))"
  by (simp add: evaluate_def unmarshal_def slice_0_minus1_def)

text \<open>
  An integer beyond the range a double holds exactly arrives as \<^verbatim>\<open>9007199254740993n\<close> and
  is returned with every digit.
\<close>

theorem evaluate_unmarshalling_precedence_witness:
  "evaluate (Inr \<lparr>result = \<lparr>type_tag = ''bigint'', subtype = None,
       unserializableValue = Some ''9007199254740993n'', val = None\<rparr>,
     exceptionDetails = None\<rparr>) = Inr (BigInt 9007199254740993)"
  using evaluate_unmarshalling_precedence
    [of "\<lparr>result = \<lparr>type_tag = ''bigint'', subtype = None,
       unserializableValue = Some ''9007199254740993n'', val = None\<rparr>,
     exceptionDetails = None\<rparr>" _ "''9007199254740993n''"]
  by (simp add: BigInt_of_string_def trim_def is_white_space_def unsigned_literal_def
      literal_value_def digit_value_def)

section \<open>Properties of \<^verbatim>\<open>close\<close>\<close>

lemma indexOf_from_absent: "x \<notin> set xs \<Longrightarrow> indexOf_from i xs x = - 1"
  by (induction xs arbitrary: i) auto

lemma indexOf_from_present: "x \<in> set xs \<Longrightarrow> 0 \<le> i \<Longrightarrow> i \<le> indexOf_from i xs x"
proof (induction xs arbitrary: i)
  case Nil
  then show ?case by simp
next
  case (Cons y ys)
  show ?case
  proof (cases "y = x")
    case True
    then show ?thesis by simp
  next
    case False
    with Cons.prems have "x \<in> set ys" by simp
    from Cons.IH[OF this, of "i + 1"] Cons.prems(2) False show ?thesis by simp
  qed
qed

lemma splice_1_indexOf_from:
  "x \<in> set xs \<Longrightarrow> 0 \<le> i \<Longrightarrow>
   take (nat (indexOf_from i xs x - i)) xs @ drop (Suc (nat (indexOf_from i xs x - i))) xs
     = remove1 x xs"
proof (induction xs arbitrary: i)
  case Nil
  then show ?case by simp
next
  case (Cons y ys)
  show ?case
  proof (cases "y = x")
    case True
    then show ?thesis by simp
  next
    case False
    with Cons.prems have mem: "x \<in> set ys" by simp
    have le: "i + 1 \<le> indexOf_from (i + 1) ys x"
      using indexOf_from_present[OF mem, of "i + 1"] Cons.prems(2) by simp
    then have n: "nat (indexOf_from (i + 1) ys x - i)
        = Suc (nat (indexOf_from (i + 1) ys x - (i + 1)))"
      by simp
    from Cons.IH[OF mem, of "i + 1"] Cons.prems(2) False show ?thesis
      by (simp add: n)
  qed
qed

text \<open>The guarded \<^verbatim>\<open>splice\<close> removes the first occurrence, if there is one.\<close>

lemma splice_1_indexOf:
  "(if indexOf xs x > - 1 then splice_1 xs (indexOf xs x) else xs) = remove1 x xs"
proof (cases "x \<in> set xs")
  case True
  from indexOf_from_present[OF True, of 0] splice_1_indexOf_from[OF True, of 0]
  show ?thesis by (simp add: indexOf_def splice_1_def)
next
  case False
  then show ?thesis by (simp add: indexOf_def indexOf_from_absent remove1_idem)
qed

text \<open>
  Claim C2, as stated, has \<^verbatim>\<open>close\<close> close the protocol connection when the response
  text reports success. It does not: on the answer \<^verbatim>\<open>Target is closing\<close> the page is
  taken out of the collection and the call returns, with the connection as it was.
\<close>

theorem close_success_counterexample:
  "close ''http://localhost:9222'' (\<lambda>url. ''Target is closing'') ''A''
     \<lparr>pages = [''A'', ''B''], celestial_closed = False\<rparr>
   = (Inr (), \<lparr>pages = [''B''], celestial_closed = False\<rparr>)"
  by (simp add: close_def indexOf_def splice_1_def)

text \<open>
  Claim C2, amended. \<^verbatim>\<open>close\<close> requests \<^verbatim>\<open>/json/close/<id>\<close> over HTTP. When the response
  text is exactly \<^verbatim>\<open>Target is closing\<close> it removes the page from the browser's page
  collection and returns, leaving the protocol connection untouched; on any other
  response text it closes the local protocol connection and then fails with an error
  whose message contains the response text.
\<close>

theorem close_outcomes:
  "close BASE_URL fetch this t =
     (if fetch (BASE_URL @ ''/json/close/'' @ this) = ''Target is closing''
      then (Inr (), t\<lparr>pages := remove1 this (pages t)\<rparr>)
      else (Inl (Error (''Page has already been closed or doesn'' @ [CHR 0x27] @ ''t exist (''
                  @ fetch (BASE_URL @ ''/json/close/'' @ this) @ '')'')),
            t\<lparr>celestial_closed := True\<rparr>))"
proof -
  have "(if indexOf (pages t) this > - 1
         then t\<lparr>pages := splice_1 (pages t) (indexOf (pages t) this)\<rparr> else t)
        = t\<lparr>pages := remove1 this (pages t)\<rparr>"
    using splice_1_indexOf[of "pages t" this] by (cases "indexOf (pages t) this > - 1") simp_all
  then show ?thesis by (simp add: close_def Let_def)
qed

section \<open>Properties of the polling loops\<close>

text \<open>A loop that returns has seen a rejected call or an answer that is not empty.\<close>

lemma getRoot_loop_returns_aux:
  assumes "getRoot_loop g now i = Some y"
  shows "\<exists>j. snd (g j) \<noteq> Inr None"
proof (rule getRoot_loop.raw_induct[where P = "\<lambda>g now i y. \<exists>j. snd (g j) \<noteq> Inr None", OF _ assms],
    goal_cases)
  case (1 f getDocument now i y)
  obtain lat a where gi: "getDocument i = (lat, a)" by (cases "getDocument i")
  show ?case
  proof (cases "a = Inr None")
    case True
    with 1(2) gi have "f getDocument (now + lat) (Suc i) = Some y" by simp
    then show ?thesis by (rule 1(1))
  next
    case False
    with gi have "snd (getDocument i) \<noteq> Inr None" by simp
    then show ?thesis by blast
  qed
qed

lemma getRoot_loop_empty:
  assumes "\<forall>i. snd (g i) = Inr None"
  shows "getRoot_loop g now i = None"
proof (cases "getRoot_loop g now i")
  case None
  then show ?thesis .
next
  case (Some y)
  from getRoot_loop_returns_aux[OF this] assms show ?thesis by blast
qed

lemma getRoot_loop_found:
  "\<forall>j<k. snd (g (i + j)) = Inr None \<Longrightarrow> snd (g (i + k)) = Inr (Some doc) \<Longrightarrow>
   getRoot_loop g now i = Some (now + (\<Sum>j\<le>k. fst (g (i + j))), Inr doc)"
proof (induction k arbitrary: now i)
  case 0
  obtain lat a where gi: "g i = (lat, a)" by (cases "g i")
  with 0 show ?case by (subst getRoot_loop.simps) simp
next
  case (Suc k)
  obtain lat a where gi: "g i = (lat, a)" by (cases "g i")
  from Suc.prems(1) have a: "a = Inr None" using gi by (metis add.right_neutral snd_conv zero_less_Suc)
  have s: "(\<Sum>j\<le>Suc k. fst (g (i + j))) = lat + (\<Sum>j\<le>k. fst (g (Suc i + j)))"
    using gi by (simp add: sum.atMost_Suc_shift del: sum.atMost_Suc)
  have "getRoot_loop g (now + lat) (Suc i)
      = Some (now + lat + (\<Sum>j\<le>k. fst (g (Suc i + j))), Inr doc)"
  proof (rule Suc.IH)
    show "\<forall>j<k. snd (g (Suc i + j)) = Inr None" using Suc.prems(1) by (metis Suc_less_eq add_Suc_shift)
    show "snd (g (Suc i + k)) = Inr (Some doc)" using Suc.prems(2) by simp
  qed
  then show ?case
    by (subst getRoot_loop.simps) (simp add: gi a s add.assoc del: sum.atMost_Suc)
qed

text \<open>
  Claim C8. The document-root resolver calls \<^verbatim>\<open>DOM.getDocument\<close> again and again, the next
  call starting the moment the previous one has answered, until an answer is not empty:
  with the first such answer at call \<open>k\<close> the loop ends when the times of the calls up to
  \<open>k\<close> have passed, nothing added, and \<^verbatim>\<open>#getRoot\<close> returns the handle of that document
  if that is within the page's timeout. The loop itself is unbounded: when every answer
  is empty it never returns, however fast or slow the answers are. Its only bound is
  the deadline executor with the page's timeout, and \<^verbatim>\<open>#getRoot\<close> then fails with
  \<open>DeadlineExceeded\<close>.
\<close>

theorem getRoot_bounded_by_deadline:
  "((\<forall>i. snd (getDocument i) = Inr None) \<longrightarrow>
      getRoot_loop getDocument now 0 = None \<and> getRoot getDocument now = Inl DeadlineExceeded) \<and>
   ((\<forall>i<k. snd (getDocument i) = Inr None) \<and> snd (getDocument k) = Inr (Some doc) \<longrightarrow>
      getRoot_loop getDocument now 0 = Some (now + (\<Sum>i\<le>k. fst (getDocument i)), Inr doc) \<and>
      getRoot getDocument now =
        (if (\<Sum>i\<le>k. fst (getDocument i)) < timeout_ms then Inr \<lparr>nodeId = root_nodeId doc\<rparr>
         else Inl DeadlineExceeded))"
proof (intro conjI impI)
  assume e: "\<forall>i. snd (getDocument i) = Inr None"
  show n: "getRoot_loop getDocument now 0 = None" by (rule getRoot_loop_empty[OF e])
  show "getRoot getDocument now = Inl DeadlineExceeded"
    by (simp add: getRoot_def withDeadline_def getRoot_loop_empty[OF e])
next
  assume h: "(\<forall>i<k. snd (getDocument i) = Inr None) \<and> snd (getDocument k) = Inr (Some doc)"
  show l: "getRoot_loop getDocument now 0 = Some (now + (\<Sum>i\<le>k. fst (getDocument i)), Inr doc)"
    using getRoot_loop_found[of k getDocument 0 doc now] h by simp
  show "getRoot getDocument now =
        (if (\<Sum>i\<le>k. fst (getDocument i)) < timeout_ms then Inr \<lparr>nodeId = root_nodeId doc\<rparr>
         else Inl DeadlineExceeded)"
    by (simp add: getRoot_def withDeadline_def l)
qed

text \<open>
  Remote ends with empty answers only, one that answers in no time and one that takes a
  millisecond: the resolver times out. With the fourth answer holding node 7, the
  resolver returns that node when the answers come at once, and times out when each
  takes four seconds.
\<close>

theorem getRoot_bounded_by_deadline_witness:
  "getRoot (\<lambda>i. (0, Inr None)) 0 = Inl DeadlineExceeded \<and>
   getRoot (\<lambda>i. (1, Inr None)) 0 = Inl DeadlineExceeded \<and>
   getRoot (\<lambda>i. (0, Inr (if i < 3 then None else Some \<lparr>root_nodeId = 7\<rparr>))) 0
     = Inr \<lparr>nodeId = 7\<rparr> \<and>
   getRoot (\<lambda>i. (4000, Inr (if i < 3 then None else Some \<lparr>root_nodeId = 7\<rparr>))) 0
     = Inl DeadlineExceeded"
  using getRoot_bounded_by_deadline[of "\<lambda>i. (0, Inr None)" 0]
    getRoot_bounded_by_deadline[of "\<lambda>i. (1, Inr None)" 0]
    getRoot_bounded_by_deadline
      [of "\<lambda>i. (0, Inr (if i < 3 then None else Some \<lparr>root_nodeId = 7\<rparr>))" 0 3 "\<lparr>root_nodeId = 7\<rparr>"]
    getRoot_bounded_by_deadline
      [of "\<lambda>i. (4000, Inr (if i < 3 then None else Some \<lparr>root_nodeId = 7\<rparr>))" 0 3 "\<lparr>root_nodeId = 7\<rparr>"]
  by (simp add: timeout_ms_def)

lemma waitForFunction_loop_found:
  "\<forall>j<k. \<exists>v. evaluate (snd (rpc (i + j))) = Inr v \<and> \<not> truthy v \<Longrightarrow>
   evaluate (snd (rpc (i + k))) = Inr polled \<Longrightarrow> truthy polled \<Longrightarrow>
   waitForFunction_loop rpc now i = Some (now + (\<Sum>j\<le>k. fst (rpc (i + j))), Inr polled)"
proof (induction k arbitrary: now i)
  case 0
  obtain lat a where gi: "rpc i = (lat, a)" by (cases "rpc i")
  with 0 show ?case by (subst waitForFunction_loop.simps) simp
next
  case (Suc k)
  obtain lat a where gi: "rpc i = (lat, a)" by (cases "rpc i")
  from Suc.prems(1) obtain v where v: "evaluate a = Inr v" "\<not> truthy v"
    using gi by (metis add.right_neutral snd_conv zero_less_Suc)
  have s: "(\<Sum>j\<le>Suc k. fst (rpc (i + j))) = lat + (\<Sum>j\<le>k. fst (rpc (Suc i + j)))"
    using gi by (simp add: sum.atMost_Suc_shift del: sum.atMost_Suc)
  have "waitForFunction_loop rpc (now + lat) (Suc i)
      = Some (now + lat + (\<Sum>j\<le>k. fst (rpc (Suc i + j))), Inr polled)"
  proof (rule Suc.IH)
    show "\<forall>j<k. \<exists>v. evaluate (snd (rpc (Suc i + j))) = Inr v \<and> \<not> truthy v"
      using Suc.prems(1) by (metis Suc_less_eq add_Suc_shift)
    show "evaluate (snd (rpc (Suc i + k))) = Inr polled" using Suc.prems(2) by simp
    show "truthy polled" by (rule Suc.prems(3))
  qed
  then show ?case
    by (subst waitForFunction_loop.simps) (simp add: gi v s add.assoc del: sum.atMost_Suc)
qed

text \<open>
  Claim C9. \<^verbatim>\<open>waitForFunction\<close> resolves with no value. When the polled evaluation is
  falsy at the attempts before \<open>k\<close> and truthy at attempt \<open>k\<close>, and these attempts are
  over within the page's timeout, the loop ends with the truthy result, and the call
  resolves, to \<^verbatim>\<open>undefined\<close> and not to that result.
\<close>

theorem waitForFunction_discards_result:
  assumes "\<forall>i<k. \<exists>v. evaluate (snd (rpc i)) = Inr v \<and> \<not> truthy v"
    and "evaluate (snd (rpc k)) = Inr polled" and "truthy polled"
    and "(\<Sum>i\<le>k. fst (rpc i)) < timeout_ms"
  shows "waitForFunction_loop rpc now 0 = Some (now + (\<Sum>i\<le>k. fst (rpc i)), Inr polled) \<and>
         waitForFunction rpc now = Inr Undefined \<and> polled \<noteq> Undefined"
proof -
  have l: "waitForFunction_loop rpc now 0 = Some (now + (\<Sum>i\<le>k. fst (rpc i)), Inr polled)"
    using waitForFunction_loop_found[of k rpc 0 polled now] assms(1,2,3) by simp
  moreover from assms(3) have "polled \<noteq> Undefined" by auto
  ultimately show ?thesis using assms(4) by (simp add: waitForFunction_def withDeadline_def)
qed

text \<open>
  A page where the polled expression is \<open>0\<close> at the first attempt and \<^verbatim>\<open>true\<close> from the
  second on, each attempt taking five milliseconds, and a page where it is \<open>42\<close> at
  once and in no time: the loops end with \<^verbatim>\<open>true\<close> and with \<open>42\<close>, the calls with
  \<^verbatim>\<open>undefined\<close>.
\<close>

theorem waitForFunction_discards_result_witness:
  "waitForFunction_loop (\<lambda>i. (5, Inr \<lparr>result = \<lparr>type_tag = (if i = 0 then ''number'' else ''boolean''),
        subtype = None, unserializableValue = None,
        val = Some (if i = 0 then JNumber 0 else JBool True)\<rparr>,
      exceptionDetails = None\<rparr>)) 0 0 = Some (10, Inr (Json (JBool True))) \<and>
   waitForFunction (\<lambda>i. (5, Inr \<lparr>result = \<lparr>type_tag = (if i = 0 then ''number'' else ''boolean''),
        subtype = None, unserializableValue = None,
        val = Some (if i = 0 then JNumber 0 else JBool True)\<rparr>,
      exceptionDetails = None\<rparr>)) 0 = Inr Undefined \<and>
   waitForFunction (\<lambda>i. (0, Inr \<lparr>result = \<lparr>type_tag = ''number'',
        subtype = None, unserializableValue = None, val = Some (JNumber 42)\<rparr>,
      exceptionDetails = None\<rparr>)) 0 = Inr Undefined"
proof -
  let ?a = "\<lambda>i::nat. (5::nat, Inr \<lparr>result = \<lparr>type_tag = (if i = 0 then ''number'' else ''boolean''),
        subtype = None, unserializableValue = None,
        val = Some (if i = 0 then JNumber 0 else JBool True)\<rparr>,
      exceptionDetails = None\<rparr> :: error + evaluate_response)"
  let ?b = "\<lambda>i::nat. (0::nat, Inr \<lparr>result = \<lparr>type_tag = ''number'',
        subtype = None, unserializableValue = None, val = Some (JNumber 42)\<rparr>,
      exceptionDetails = None\<rparr> :: error + evaluate_response)"
  have a1: "\<forall>i<1. \<exists>v. evaluate (snd (?a i)) = Inr v \<and> \<not> truthy v"
    by (simp add: evaluate_def unmarshal_def)
  have a2: "evaluate (snd (?a 1)) = Inr (Json (JBool True))"
    by (simp add: evaluate_def unmarshal_def)
  have a3: "(\<Sum>i\<le>1. fst (?a i)) < timeout_ms" by (simp add: timeout_ms_def)
  have b1: "\<forall>i<0. \<exists>v. evaluate (snd (?b i)) = Inr v \<and> \<not> truthy v" by simp
  have b2: "evaluate (snd (?b 0)) = Inr (Json (JNumber 42))"
    by (simp add: evaluate_def unmarshal_def)
  have b3: "(\<Sum>i\<le>0. fst (?b i)) < timeout_ms" by (simp add: timeout_ms_def)
  from waitForFunction_discards_result[OF a1 a2 _ a3, of 0]
    waitForFunction_discards_result[OF b1 b2 _ b3, of 0]
  show ?thesis by simp
qed


section \<open>The shape of the states of the loop\<close>

subsection \<open>Reactions are calm\<close>

lemma idle_handles_filter_deadline:
  "map fst (filter (\<lambda>x. snd (snd x) = TimeoutDone) (filter (\<lambda>x. snd (snd x) \<notin> DeadlineTimer ` W) xs))
     = map fst (filter (\<lambda>x. snd (snd x) = TimeoutDone) xs)"
proof -
  have "filter (\<lambda>x. snd (snd x) = TimeoutDone) (filter (\<lambda>x. snd (snd x) \<notin> DeadlineTimer ` W) xs)
      = filter (\<lambda>x. snd (snd x) = TimeoutDone) xs"
    unfolding filter_filter by (rule filter_cong) auto
  then show ?thesis by simp
qed

lemma calm_refl: "calm s s"
proof -
  have "timers s = filter (\<lambda>x. snd (snd x) \<notin> DeadlineTimer ` set []) (timers s)" by simp
  then show ?thesis unfolding calm_def by blast
qed

lemma calm_trans:
  assumes "calm s s'" and "calm s' s''"
  shows "calm s s''"
proof -
  from assms(1) obtain ws where a: "timers s' = filter (\<lambda>x. snd (snd x) \<notin> DeadlineTimer ` set ws) (timers s)"
    unfolding calm_def by blast
  from assms(2) obtain ws' where b: "timers s'' = filter (\<lambda>x. snd (snd x) \<notin> DeadlineTimer ` set ws') (timers s')"
    unfolding calm_def by blast
  have "timers s'' = filter (\<lambda>x. snd (snd x) \<notin> DeadlineTimer ` set (ws @ ws')) (timers s)"
    unfolding b a filter_filter by (rule filter_cong) auto
  then have "\<exists>ws. timers s'' = filter (\<lambda>x. snd (snd x) \<notin> DeadlineTimer ` set ws) (timers s)" by blast
  with assms show ?thesis unfolding calm_def by simp
qed

lemma calm_clearDeadline: "calm s (clearDeadline w s)"
proof -
  have t: "timers (clearDeadline w s) = filter (\<lambda>x. snd (snd x) \<notin> DeadlineTimer ` set [w]) (timers s)"
    by (simp add: clearDeadline_def)
  have h: "idle_handles (clearDeadline w s) = idle_handles s"
    unfolding idle_handles_def t by (rule idle_handles_filter_deadline)
  from t have "\<exists>ws. timers (clearDeadline w s) = filter (\<lambda>x. snd (snd x) \<notin> DeadlineTimer ` set ws) (timers s)"
    by blast
  then show ?thesis unfolding calm_def using h by (simp add: clearDeadline_def)
qed

lemma calm_update:
  assumes "timers s' = timers s" "map_option idle_core (idle s') = map_option idle_core (idle s)"
    "load s' = load s" "listeners s' = listeners s" "next_handle s' = next_handle s"
    "clock s' = clock s" "sent s' = sent s"
    "map_option nav_waitUntil (navigation s') = map_option nav_waitUntil (navigation s)"
  shows "calm s s'"
proof -
  have "timers s' = filter (\<lambda>x. snd (snd x) \<notin> DeadlineTimer ` set []) (timers s)"
    using assms(1) by simp
  then have "\<exists>ws. timers s' = filter (\<lambda>x. snd (snd x) \<notin> DeadlineTimer ` set ws) (timers s)" by blast
  moreover have "idle_handles s' = idle_handles s" using assms(1) by (simp add: idle_handles_def)
  ultimately show ?thesis unfolding calm_def using assms by simp
qed

lemma calm_all_settled: "calm s (all_settled out s)"
  by (rule calm_update) (simp_all add: all_settled_def split: option.split)

lemma calm_command_settled: "calm s (command_settled out s)"
proof (cases "goto s")
  case None
  then show ?thesis by (simp add: command_settled_def calm_refl)
next
  case (Some g)
  let ?s1 = "s\<lparr>goto := Some (g\<lparr>command_deadline := out\<rparr>)\<rparr>"
  have 1: "calm s ?s1" by (rule calm_update) simp_all
  have 2: "calm ?s1 (clearDeadline Command ?s1)" by (rule calm_clearDeadline)
  show ?thesis
    using Some calm_refl[of s] calm_trans[OF 1 calm_all_settled]
      calm_trans[OF calm_trans[OF 1 2] calm_all_settled]
    by (auto simp: command_settled_def)
qed

lemma calm_navigation_returned: "calm s (navigation_returned out s)"
proof (cases "navigation s")
  case None
  then show ?thesis by (simp add: navigation_returned_def calm_refl)
next
  case (Some n)
  let ?s1 = "s\<lparr>navigation := Some (n\<lparr>nav_returned := out\<rparr>)\<rparr>"
  have 1: "calm s ?s1" by (rule calm_update) (simp_all add: Some)
  show ?thesis
    using Some calm_refl[of s] calm_trans[OF 1 calm_all_settled]
    by (simp add: navigation_returned_def)
qed

lemma calm_navigation_deadline_settled: "calm s (navigation_deadline_settled out s)"
proof (cases "navigation s")
  case None
  then show ?thesis by (simp add: navigation_deadline_settled_def calm_refl)
next
  case (Some n)
  let ?s1 = "s\<lparr>navigation := Some (n\<lparr>nav_deadline := Some out\<rparr>)\<rparr>"
  have 1: "calm s ?s1" by (rule calm_update) (simp_all add: Some)
  have 2: "calm ?s1 (clearDeadline NavigationWait ?s1)" by (rule calm_clearDeadline)
  show ?thesis
    using Some calm_refl[of s] calm_trans[OF 1 calm_navigation_returned]
      calm_trans[OF calm_trans[OF 1 2] calm_navigation_returned]
    by (auto simp: navigation_deadline_settled_def)
qed

lemma calm_idle_deadline_settled: "calm s (idle_deadline_settled out s)"
proof (cases "idle s")
  case None
  then show ?thesis by (simp add: idle_deadline_settled_def calm_refl)
next
  case (Some v)
  have 1: "calm s (s\<lparr>idle := Some (v\<lparr>idle_deadline := x\<rparr>)\<rparr>)" for x
    by (rule calm_update) (simp_all add: Some idle_core_def)
  have 2: "calm (s\<lparr>idle := Some (v\<lparr>idle_deadline := x\<rparr>)\<rparr>)
      (clearDeadline IdleWait (s\<lparr>idle := Some (v\<lparr>idle_deadline := x\<rparr>)\<rparr>))" for x
    by (rule calm_clearDeadline)
  show ?thesis
    using Some calm_refl[of s] 1[of out]
      calm_trans[OF calm_trans[OF 1 2] calm_navigation_deadline_settled, of Resolved Resolved]
    by (auto simp: idle_deadline_settled_def)
qed

subsection \<open>The shape of the states is kept\<close>

lemma calm_timers_ok: "calm s s' \<Longrightarrow> timers_ok s \<Longrightarrow> timers_ok s'"
  by (auto simp: calm_def timers_ok_def distinct_map_filter list_all_iff)

lemma calm_idle_ok:
  assumes "calm s s'" and "idle_ok s"
  shows "idle_ok s'"
proof (cases "idle s")
  case None
  with assms show ?thesis by (auto simp: calm_def idle_ok_def cong: option.case_cong)
next
  case (Some v)
  with assms(1) obtain v' where v': "idle s' = Some v'" "idle_core v' = idle_core v"
    by (auto simp: calm_def)
  with assms Some show ?thesis
    by (simp add: calm_def idle_ok_def idle_core_def cong: option.case_cong)
qed

lemma calm_navigation_ok:
  assumes "calm s s'" and "navigation_ok s"
  shows "navigation_ok s'"
proof (cases "navigation s")
  case None
  with assms(1) have "navigation s' = None" by (simp add: calm_def)
  then show ?thesis by (simp add: navigation_ok_def cong: option.case_cong)
next
  case (Some n)
  with assms(1) obtain n' where n': "navigation s' = Some n'" "nav_waitUntil n' = nav_waitUntil n"
    by (auto simp: calm_def)
  from assms(1) have i: "(idle s' = None) = (idle s = None)"
    unfolding calm_def by (metis option.map_disc_iff)
  from assms Some n' i show ?thesis
    by (auto simp: calm_def navigation_ok_def split: option.splits cong: option.case_cong)
qed

lemma calm_inv: "calm s s' \<Longrightarrow> inv s \<Longrightarrow> inv s'"
  by (simp add: inv_def calm_timers_ok calm_idle_ok calm_navigation_ok)


lemma idle_handles_updates [simp]:
  "idle_handles (s\<lparr>clock := c\<rparr>) = idle_handles s"
  "idle_handles (s\<lparr>listeners := ls\<rparr>) = idle_handles s"
  "idle_handles (s\<lparr>next_handle := nh\<rparr>) = idle_handles s"
  "idle_handles (s\<lparr>sent := cs\<rparr>) = idle_handles s"
  "idle_handles (s\<lparr>idle := i\<rparr>) = idle_handles s"
  "idle_handles (s\<lparr>load := l\<rparr>) = idle_handles s"
  "idle_handles (s\<lparr>navigation := n\<rparr>) = idle_handles s"
  "idle_handles (s\<lparr>goto := g\<rparr>) = idle_handles s"
  by (simp_all add: idle_handles_def)

lemma idle_handles_append [simp]:
  "idle_handles (s\<lparr>timers := timers s @ [(h, due, k)]\<rparr>)
     = (if k = TimeoutDone then idle_handles s @ [h] else idle_handles s)"
  by (simp add: idle_handles_def)

lemma inv_listeners_update [simp]: "inv (s\<lparr>listeners := ls\<rparr>) = inv s"
  by (simp add: inv_def timers_ok_def idle_ok_def navigation_ok_def cong: option.case_cong)

lemma inv_clock_update [simp]: "inv (s\<lparr>clock := c\<rparr>) = inv s"
  by (simp add: inv_def timers_ok_def idle_ok_def navigation_ok_def cong: option.case_cong)

lemma inv_addEventListener [simp]: "inv (addEventListener t cb s) = inv s"
  by (simp add: addEventListener_def)

lemma inv_removeEventListener [simp]: "inv (removeEventListener t cb s) = inv s"
  by (simp add: removeEventListener_def)

lemma inv_resolve_idle_cleared:
  assumes "timers_ok s" "navigation_ok s" "idle_handles s = []"
    "case idle s of None \<Rightarrow> True | Some v \<Rightarrow> 0 \<le> inflight v"
  shows "inv (resolve_idle s)"
proof (cases "idle s")
  case None
  with assms show ?thesis by (simp add: resolve_idle_def inv_def idle_ok_def cong: option.case_cong)
next
  case (Some v)
  show ?thesis
  proof (cases "idle_promise v = Pending")
    case False
    with assms Some show ?thesis by (simp add: resolve_idle_def inv_def idle_ok_def cong: option.case_cong)
  next
    case True
    let ?s1 = "s\<lparr>idle := Some (v\<lparr>idle_promise := Resolved\<rparr>)\<rparr>"
    have "inv ?s1"
      using assms Some
      by (simp add: inv_def timers_ok_def idle_ok_def navigation_ok_def idle_handles_def
          split: option.splits cong: option.case_cong)
    from calm_inv[OF calm_idle_deadline_settled this] True Some show ?thesis
      by (simp add: resolve_idle_def)
  qed
qed

lemma inv_timeoutDone_cleared:
  assumes "timers_ok s" "navigation_ok s" "idle_handles s = []"
    "case idle s of None \<Rightarrow> True | Some v \<Rightarrow> 0 \<le> inflight v"
  shows "inv (timeoutDone s)"
  unfolding timeoutDone_def
  by (rule inv_resolve_idle_cleared)
     (use assms in \<open>simp_all add: removeEventListener_def timers_ok_def navigation_ok_def
        cong: option.case_cong\<close>)

lemma idle_handles_clearTimeout:
  "idle_handles (clearTimeout h s) = filter (\<lambda>k. k \<noteq> h) (idle_handles s)"
  by (simp add: idle_handles_def clearTimeout_def filter_map o_def filter_filter conj_commute)

lemma timers_ok_clearTimeout: "timers_ok s \<Longrightarrow> timers_ok (clearTimeout h s)"
  by (simp add: timers_ok_def clearTimeout_def distinct_map_filter list_all_iff)

lemma filter_all_equal: "list_all (\<lambda>k. k = h) xs \<Longrightarrow> filter (\<lambda>k. k \<noteq> h) xs = []"
  by (induction xs) auto

lemma inv_requestStarted:
  assumes "inv s"
  shows "inv (requestStarted s)"
proof (cases "idle s")
  case None
  with assms show ?thesis by (simp add: requestStarted_def)
next
  case (Some v)
  let ?s1 = "s\<lparr>idle := Some (v\<lparr>inflight := inflight v + 1\<rparr>)\<rparr>"
  from assms Some have ok: "list_all (\<lambda>h. h = timeout v) (idle_handles s)"
    "idle_handles s = [] \<or> inflight v \<le> int (idleConnections v)"
    "idle_promise v \<noteq> Pending \<or> int (idleConnections v) < inflight v \<or> idle_handles s \<noteq> []"
    "0 \<le> inflight v"
    by (simp_all add: inv_def idle_ok_def cong: option.case_cong)
  from assms have t: "timers_ok s" and n: "navigation_ok s" by (simp_all add: inv_def)
  show ?thesis
  proof (cases "inflight v + 1 > int (idleConnections v)")
    case True
    have h: "idle_handles (clearTimeout (timeout v) ?s1) = []"
      using filter_all_equal[OF ok(1)] by (simp add: idle_handles_clearTimeout)
    have "timers_ok (clearTimeout (timeout v) ?s1)"
      using t by (simp add: timers_ok_def clearTimeout_def distinct_map_filter list_all_iff)
    moreover have "idle_ok (clearTimeout (timeout v) ?s1)"
      using h True by (simp add: idle_ok_def clearTimeout_def cong: option.case_cong)
    moreover have "navigation_ok (clearTimeout (timeout v) ?s1)"
      using n Some by (simp add: navigation_ok_def clearTimeout_def split: option.splits cong: option.case_cong)
    ultimately show ?thesis using Some True by (simp add: requestStarted_def inv_def)
  next
    case False
    have "timers_ok ?s1" using t by (simp add: timers_ok_def)
    moreover have "idle_ok ?s1"
      using ok False by (auto simp: idle_ok_def idle_handles_def cong: option.case_cong)
    moreover have "navigation_ok ?s1"
      using n Some by (simp add: navigation_ok_def split: option.splits cong: option.case_cong)
    ultimately show ?thesis using Some False by (simp add: requestStarted_def inv_def)
  qed
qed

lemma inv_requestFinished:
  assumes "inv s"
  shows "inv (requestFinished s)"
proof (cases "idle s")
  case None
  with assms show ?thesis by (simp add: requestFinished_def)
next
  case (Some v)
  from assms Some have ok: "list_all (\<lambda>h. h = timeout v) (idle_handles s)"
    "idle_handles s = [] \<or> inflight v \<le> int (idleConnections v)"
    "idle_promise v \<noteq> Pending \<or> int (idleConnections v) < inflight v \<or> idle_handles s \<noteq> []"
    "0 \<le> inflight v"
    by (simp_all add: inv_def idle_ok_def cong: option.case_cong)
  from assms have t: "timers_ok s" and n: "navigation_ok s" by (simp_all add: inv_def)
  consider (zero) "inflight v = 0"
    | (arm) "inflight v \<noteq> 0" "inflight v - 1 = int (idleConnections v)"
    | (dec) "inflight v \<noteq> 0" "inflight v - 1 \<noteq> int (idleConnections v)" by blast
  then show ?thesis
  proof cases
    case zero
    with assms Some show ?thesis by (simp add: requestFinished_def)
  next
    case arm
    let ?s2 = "s\<lparr>timers := timers s @ [(next_handle s, clock s + idleTime v, TimeoutDone)],
          next_handle := Suc (next_handle s),
          idle := Some (v\<lparr>inflight := inflight v - 1, timeout := next_handle s\<rparr>)\<rparr>"
    have eq: "requestFinished s = ?s2"
      using Some arm by (simp add: requestFinished_def setTimeout_def)
    from ok(2) arm have e: "idle_handles s = []" by auto
    have "timers_ok ?s2"
      using t by (auto simp: timers_ok_def list_all_iff)
    moreover have "idle_ok ?s2"
      using e arm by (simp add: idle_ok_def idle_handles_def cong: option.case_cong)
    moreover have "navigation_ok ?s2"
      using n Some by (simp add: navigation_ok_def split: option.splits cong: option.case_cong)
    ultimately show ?thesis unfolding eq inv_def by simp
  next
    case dec
    let ?s2 = "s\<lparr>idle := Some (v\<lparr>inflight := inflight v - 1\<rparr>)\<rparr>"
    have eq: "requestFinished s = ?s2"
      using Some dec by (simp add: requestFinished_def)
    have "timers_ok ?s2" using t by (simp add: timers_ok_def)
    moreover have "idle_ok ?s2"
      using ok dec by (auto simp: idle_ok_def idle_handles_def cong: option.case_cong)
    moreover have "navigation_ok ?s2"
      using n Some by (simp add: navigation_ok_def split: option.splits cong: option.case_cong)
    ultimately show ?thesis unfolding eq inv_def by simp
  qed
qed

lemma inv_retryDeadline: "inv s \<Longrightarrow> inv (retryDeadline w s)"
  by (auto simp: retryDeadline_def setTimeout_def inv_def timers_ok_def idle_ok_def
      navigation_ok_def idle_handles_def list_all_iff split: option.splits cong: option.case_cong)

lemma inv_waitForNetworkIdle:
  assumes "timers_ok s" "idle_handles s = []"
    "case navigation s of None \<Rightarrow> True
     | Some n \<Rightarrow> nav_waitUntil n \<noteq> Some Load \<and>
         (case load s of None \<Rightarrow> False | Some l \<Rightarrow> load_deadline l \<noteq> Pending)"
  shows "inv (waitForNetworkIdle options s)"
proof -
  have "inv (s\<lparr>timers := timers s @ [(next_handle s, clock s + t, TimeoutDone)],
          next_handle := Suc (next_handle s),
          idle := Some \<lparr>idleTime = t, idleConnections = c, timeout = next_handle s,
                   inflight = 0, idle_promise = Pending, idle_deadline = Pending\<rparr>\<rparr>)" for t c
    using assms
    by (auto simp: inv_def timers_ok_def idle_ok_def navigation_ok_def idle_handles_def
        list_all_iff split: option.splits cong: option.case_cong)
  then show ?thesis
    by (simp add: waitForNetworkIdle_def setTimeout_def Let_def inv_retryDeadline)
qed

lemma inv_navigation_pending:
  "inv s \<Longrightarrow> inv (s\<lparr>navigation := map_option (\<lambda>n. n\<lparr>nav_deadline := Some Pending\<rparr>) (navigation s)\<rparr>)"
  by (auto simp: inv_def timers_ok_def idle_ok_def navigation_ok_def idle_handles_def
      split: option.splits cong: option.case_cong)

lemma inv_waitForNavigation_promise:
  assumes "timers_ok s" "idle_handles s = []" "w \<noteq> Some Load"
    "case navigation s of None \<Rightarrow> True
     | Some n \<Rightarrow> nav_waitUntil n \<noteq> Some Load \<and>
         (case load s of None \<Rightarrow> False | Some l \<Rightarrow> load_deadline l \<noteq> Pending)"
  shows "inv (waitForNavigation_promise w s)"
  using assms(3)
  by (simp add: waitForNavigation_promise_def Let_def inv_navigation_pending inv_retryDeadline
      inv_waitForNetworkIdle[OF assms(1,2,4)])

lemma inv_load_deadline_settled:
  assumes "inv s"
  shows "inv (load_deadline_settled out s)"
proof (cases "load s")
  case None
  with assms show ?thesis by (simp add: load_deadline_settled_def)
next
  case (Some l)
  show ?thesis
  proof (cases "load_deadline l = Pending")
    case False
    with assms Some show ?thesis by (simp add: load_deadline_settled_def)
  next
    case True
    let ?s0 = "s\<lparr>load := Some (l\<lparr>load_deadline := out\<rparr>)\<rparr>"
    let ?s1 = "(if out = Resolved then clearDeadline LoadWait else id) ?s0"
    have inv0: "inv ?s0"
      using assms Some True
      by (auto simp: inv_def timers_ok_def idle_ok_def navigation_ok_def idle_handles_def
          split: option.splits cong: option.case_cong)
    have c: "calm ?s0 ?s1" by (simp add: calm_refl calm_clearDeadline)
    have inv1: "inv ?s1" by (rule calm_inv[OF c inv0])
    have eq: "load_deadline_settled out s =
        (case navigation ?s1 of None \<Rightarrow> all_settled out ?s1
         | Some n \<Rightarrow> if out = Resolved then waitForNavigation_promise (nav_waitUntil n) ?s1
                      else navigation_returned out ?s1)"
      using Some True by (simp add: load_deadline_settled_def Let_def)
    show ?thesis
    proof (cases "navigation ?s1")
      case None
      with eq calm_inv[OF calm_all_settled inv1] show ?thesis by simp
    next
      case n: (Some n)
      show ?thesis
      proof (cases "out = Resolved")
        case False
        with eq n calm_inv[OF calm_navigation_returned inv1] show ?thesis by simp
      next
        case R: True
        from n R have ns: "navigation s = Some n" by (simp add: clearDeadline_def)
        from assms ns Some True have i: "idle s = None" and w: "nav_waitUntil n \<noteq> Some Load"
          by (simp_all add: inv_def navigation_ok_def cong: option.case_cong)
        from assms i have h: "idle_handles s = []" by (simp add: inv_def idle_ok_def cong: option.case_cong)
        have h1: "idle_handles ?s1 = []"
          using h R calm_clearDeadline[of ?s0 LoadWait] by (simp add: calm_def)
        have t1: "timers_ok ?s1" using inv1 by (simp add: inv_def)
        have p: "case navigation ?s1 of None \<Rightarrow> True
           | Some n \<Rightarrow> nav_waitUntil n \<noteq> Some Load \<and>
             (case load ?s1 of None \<Rightarrow> False | Some l \<Rightarrow> load_deadline l \<noteq> Pending)"
          using n w R by (simp add: clearDeadline_def)
        from inv_waitForNavigation_promise[OF t1 h1 w p] eq n R show ?thesis by simp
      qed
    qed
  qed
qed

lemma inv_callback:
  assumes "inv s"
  shows "inv (callback s)"
proof (cases "load s")
  case None
  with assms show ?thesis by (simp add: callback_def)
next
  case (Some l)
  have "inv (s\<lparr>load := Some (l\<lparr>load_promise := Resolved\<rparr>)\<rparr>)"
    using assms Some
    by (auto simp: inv_def timers_ok_def idle_ok_def navigation_ok_def idle_handles_def
        split: option.splits cong: option.case_cong)
  then show ?thesis
    using Some by (simp add: callback_def Let_def inv_load_deadline_settled)
qed

subsection \<open>The loop keeps the shape\<close>

lemma fold_invariant:
  "(\<And>x s. P s \<Longrightarrow> P (f x s)) \<Longrightarrow> P s \<Longrightarrow> P (fold f xs s)"
  by (induction xs arbitrary: s) simp_all

lemma inv_invoke: "inv s \<Longrightarrow> inv (invoke t cb s)"
  by (cases cb) (simp_all add: invoke_def inv_callback inv_requestStarted inv_requestFinished)

lemma inv_dispatchEvent: "inv s \<Longrightarrow> inv (dispatchEvent t s)"
  unfolding dispatchEvent_def by (rule fold_invariant) (rule inv_invoke)

lemma inv_fire:
  assumes "inv s"
  shows "inv (fire x s)"
proof (cases "x \<in> set (timers s)")
  case False
  with assms show ?thesis by (simp add: fire_def)
next
  case True
  obtain h due k where x: "x = (h, due, k)" by (cases x)
  let ?s0 = "clearTimeout h (s\<lparr>clock := max (clock s) due\<rparr>)"
  from assms have t: "timers_ok s" and i: "idle_ok s" and n: "navigation_ok s"
    by (simp_all add: inv_def)
  have t0: "timers_ok ?s0"
    using t by (simp add: timers_ok_def clearTimeout_def distinct_map_filter list_all_iff)
  have n0: "navigation_ok ?s0"
    using n by (simp add: navigation_ok_def clearTimeout_def cong: option.case_cong)
  have eq: "fire x s = run_task k ?s0" using True x by (simp add: fire_def)
  show ?thesis
  proof (cases k)
    case TimeoutDone
    with True x have mem: "h \<in> set (idle_handles s)" by (force simp: idle_handles_def)
    then obtain v where v: "idle s = Some v" using i by (cases "idle s") (auto simp: idle_ok_def cong: option.case_cong)
    with i have "list_all (\<lambda>k. k = timeout v) (idle_handles s)" by (simp add: idle_ok_def cong: option.case_cong)
    moreover from this mem have "h = timeout v" by (simp add: list_all_iff)
    ultimately have "idle_handles ?s0 = []"
      using filter_all_equal[of "timeout v" "idle_handles s"]
      by (simp add: idle_handles_clearTimeout)
    moreover have "case idle ?s0 of None \<Rightarrow> True | Some v \<Rightarrow> 0 \<le> inflight v"
      using i v by (simp add: idle_ok_def clearTimeout_def)
    ultimately show ?thesis
      using inv_timeoutDone_cleared[OF t0 n0] eq TimeoutDone by simp
  next
    case (DeadlineTimer w)
    have d: "distinct (map fst (timers s))" using t by (simp add: timers_ok_def)
    have "filter (\<lambda>y. snd (snd y) = TimeoutDone) (filter (\<lambda>y. fst y \<noteq> h) (timers s))
        = filter (\<lambda>y. snd (snd y) = TimeoutDone) (timers s)"
      unfolding filter_filter
    proof (rule filter_cong[OF refl])
      fix y assume y: "y \<in> set (timers s)"
      show "(fst y \<noteq> h \<and> snd (snd y) = TimeoutDone) = (snd (snd y) = TimeoutDone)"
      proof (cases "fst y = h")
        case False
        then show ?thesis by simp
      next
        case same: True
        from d y True same x have "y = x" by (metis eq_key_imp_eq_value fst_conv prod.collapse)
        with x DeadlineTimer show ?thesis by simp
      qed
    qed
    then have h0: "idle_handles ?s0 = idle_handles s"
      by (simp add: idle_handles_def clearTimeout_def)
    have "idle_ok ?s0" using i h0 by (simp add: idle_ok_def clearTimeout_def cong: option.case_cong)
    with t0 n0 have inv0: "inv ?s0" by (simp add: inv_def)
    show ?thesis
      unfolding eq DeadlineTimer
      by (cases w)
         (simp_all add: inv_load_deadline_settled[OF inv0] calm_inv[OF calm_idle_deadline_settled inv0]
           calm_inv[OF calm_navigation_deadline_settled inv0] calm_inv[OF calm_command_settled inv0])
  qed
qed

lemma inv_elapse: "inv s \<Longrightarrow> inv (elapse d s)"
  unfolding elapse_def by (simp, rule fold_invariant) (rule inv_fire)

lemma inv_step: "inv s \<Longrightarrow> inv (step i s)"
  by (cases i) (simp_all add: inv_dispatchEvent inv_elapse calm_inv[OF calm_command_settled])

lemma inv_run: "inv s \<Longrightarrow> inv (run ins s)"
  unfolding run_def by (rule fold_invariant) (rule inv_step)

lemma inv_new_page: "inv new_page"
  by (simp add: inv_def new_page_def timers_ok_def idle_ok_def navigation_ok_def idle_handles_def cong: option.case_cong)


lemma inv_sent_update [simp]: "inv (s\<lparr>sent := c\<rparr>) = inv s"
  by (simp add: inv_def timers_ok_def idle_ok_def navigation_ok_def cong: option.case_cong)

lemma inv_goto_update [simp]: "inv (s\<lparr>goto := g\<rparr>) = inv s"
  by (simp add: inv_def timers_ok_def idle_ok_def navigation_ok_def cong: option.case_cong)

lemma inv_waitForNavigation:
  assumes "inv s" "idle s = None" "navigation s = None"
  shows "inv (waitForNavigation options s)"
proof -
  let ?l = "addEventListener ''Page.loadEventFired'' Callback
              (s\<lparr>load := Some \<lparr>load_promise = Pending, load_deadline = Pending\<rparr>\<rparr>)"
  have 1: "inv (s\<lparr>load := Some \<lparr>load_promise = Pending, load_deadline = Pending\<rparr>,
                navigation := nv\<rparr>)"
    if "case nv of None \<Rightarrow> True | Some n \<Rightarrow> nav_waitUntil n \<noteq> Some Load" for nv
    using assms that
    by (auto simp: inv_def timers_ok_def idle_ok_def navigation_ok_def split: option.splits)
  have "inv (s\<lparr>load := Some \<lparr>load_promise = Pending, load_deadline = Pending\<rparr>\<rparr>)"
    using assms
    by (auto simp: inv_def timers_ok_def idle_ok_def navigation_ok_def split: option.splits)
  then have 2: "inv (retryDeadline LoadWait ?l)"
    by (simp add: inv_retryDeadline)
  have 3: "inv ((retryDeadline LoadWait ?l)\<lparr>navigation := Some n\<rparr>)"
    if "nav_waitUntil n \<noteq> Some Load" for n
  proof -
    have "(retryDeadline LoadWait ?l)\<lparr>navigation := Some n\<rparr>
        = retryDeadline LoadWait (addEventListener ''Page.loadEventFired'' Callback
            (s\<lparr>load := Some \<lparr>load_promise = Pending, load_deadline = Pending\<rparr>,
               navigation := Some n\<rparr>))"
      by (simp add: retryDeadline_def setTimeout_def addEventListener_def)
    with 1[of "Some n"] that show ?thesis by (simp add: inv_retryDeadline)
  qed
  show ?thesis
    using 2 3
    by (simp add: waitForNavigation_def waitForNavigation_promise_def Let_def split: option.split)
qed

lemma inv_start: "inv (start c new_page)"
proof (cases c)
  case (WaitForNetworkIdle options)
  have "inv (waitForNetworkIdle options new_page)"
    by (rule inv_waitForNetworkIdle)
       (simp_all add: new_page_def timers_ok_def idle_handles_def)
  with WaitForNetworkIdle show ?thesis by simp
next
  case (WaitForNavigation options)
  have "inv (waitForNavigation options new_page)"
    by (rule inv_waitForNavigation) (simp_all add: inv_new_page, simp_all add: new_page_def)
  with WaitForNavigation show ?thesis by simp
next
  case (Goto url options)
  have "inv (waitForNavigation w (retryDeadline Command (new_page\<lparr>sent := x\<rparr>)))" for w x
    by (rule inv_waitForNavigation)
       (simp_all add: inv_retryDeadline inv_new_page,
        simp_all add: new_page_def retryDeadline_def setTimeout_def)
  with Goto show ?thesis by (simp add: goto_page_def Let_def)
next
  case (Reload options)
  have "inv (waitForNavigation w (retryDeadline Command (new_page\<lparr>sent := x\<rparr>)))" for w x
    by (rule inv_waitForNavigation)
       (simp_all add: inv_retryDeadline inv_new_page,
        simp_all add: new_page_def retryDeadline_def setTimeout_def)
  with Reload show ?thesis by (simp add: reload_def Let_def)
qed

lemma inv_reachable: "inv (run ins (start c new_page))"
  by (rule inv_run) (rule inv_start)

text \<open>The definitions of the loop, for evaluating it on given inputs.\<close>

lemmas loop_defs = new_page_def waitForNetworkIdle_def setTimeout_def retryDeadline_def addEventListener_def
  removeEventListener_def clearTimeout_def clearDeadline_def timeout_ms_def run_def elapse_def fire_def
  dispatchEvent_def invoke_def requestStarted_def requestFinished_def timeoutDone_def resolve_idle_def
  idle_deadline_settled_def navigation_deadline_settled_def navigation_returned_def all_settled_def
  command_settled_def callback_def load_deadline_settled_def waitForNavigation_promise_def
  waitForNavigation_def goto_page_def reload_def idle_handles_def Let_def

section \<open>Properties of the network-idle wait\<close>

text \<open>
  Claim C6. Whatever events are delivered to a network-idle wait, the in-flight counter
  never becomes negative: in every state the loop reaches from any call, the counter of
  the idle wait is at least zero, and a \<^verbatim>\<open>requestFinished\<close> that runs with the counter at
  zero changes nothing.
\<close>

theorem inflight_never_negative:
  "(idle (run ins (start c new_page)) = Some v \<longrightarrow> 0 \<le> inflight v) \<and>
   (idle s = Some w \<and> inflight w = 0 \<longrightarrow> requestFinished s = s)"
proof
  show "idle (run ins (start c new_page)) = Some v \<longrightarrow> 0 \<le> inflight v"
    using inv_reachable[of ins c] by (auto simp: inv_def idle_ok_def)
  show "idle s = Some w \<and> inflight w = 0 \<longrightarrow> requestFinished s = s"
    by (simp add: requestFinished_def)
qed

text \<open>
  Two finish events with no request started before them leave the wait as it began.
\<close>

theorem inflight_never_negative_witness:
  "idle (run [Deliver ''Network.loadingFinished'', Deliver ''Network.loadingFailed'']
          (start (WaitForNetworkIdle None) new_page))
     = Some \<lparr>idleTime = 500, idleConnections = 0, timeout = 0, inflight = 0,
              idle_promise = Pending, idle_deadline = Pending\<rparr> \<and>
   requestFinished (start (WaitForNetworkIdle None) new_page)
     = start (WaitForNetworkIdle None) new_page"
proof -
  let ?v = "\<lparr>idleTime = 500, idleConnections = 0, timeout = 0, inflight = 0,
              idle_promise = Pending, idle_deadline = Pending\<rparr>"
  have s: "idle (start (WaitForNetworkIdle None) new_page) = Some ?v"
    by (simp add: loop_defs)
  have r: "idle (run [Deliver ''Network.loadingFinished'', Deliver ''Network.loadingFailed'']
          (start (WaitForNetworkIdle None) new_page)) = Some ?v"
    by (simp add: loop_defs)
  from inflight_never_negative
         [of "[Deliver ''Network.loadingFinished'', Deliver ''Network.loadingFailed'']"
             "WaitForNetworkIdle None" ?v "start (WaitForNetworkIdle None) new_page" ?v]
    s r show ?thesis by simp
qed

text \<open>
  Claim C5. In every state the loop reaches, as long as the promise of the idle wait is
  pending, an idle timer is armed if and only if the in-flight counter is at or below
  the threshold, and an armed idle timer is the one whose handle is in \<^verbatim>\<open>timeout\<close>. A
  \<^verbatim>\<open>requestStarted\<close> that takes the counter above the threshold leaves no idle timer
  armed; a \<^verbatim>\<open>requestFinished\<close> that takes the counter down to the threshold arms one idle
  timer, due after the idle time, and keeps its handle.
\<close>

theorem idle_timer_armed_iff:
  assumes "s = run ins (start c new_page)" and "idle s = Some v"
  shows "(idle_promise v = Pending \<longrightarrow>
            (idle_handles s \<noteq> []) = (inflight v \<le> int (idleConnections v))) \<and>
         list_all (\<lambda>h. h = timeout v) (idle_handles s) \<and>
         (int (idleConnections v) < inflight v + 1 \<longrightarrow> idle_handles (requestStarted s) = []) \<and>
         (inflight v = int (idleConnections v) + 1 \<longrightarrow>
            timers (requestFinished s) = timers s @ [(next_handle s, clock s + idleTime v, TimeoutDone)] \<and>
            idle_handles (requestFinished s) = [next_handle s] \<and>
            map_option timeout (idle (requestFinished s)) = Some (next_handle s) \<and>
            map_option inflight (idle (requestFinished s)) = Some (int (idleConnections v)))"
proof -
  have i: "inv s" unfolding assms(1) by (rule inv_reachable)
  with assms(2) have ok: "list_all (\<lambda>h. h = timeout v) (idle_handles s)"
    "idle_handles s = [] \<or> inflight v \<le> int (idleConnections v)"
    "idle_promise v \<noteq> Pending \<or> int (idleConnections v) < inflight v \<or> idle_handles s \<noteq> []"
    by (simp_all add: inv_def idle_ok_def)
  have a: "idle_promise v = Pending \<longrightarrow>
            (idle_handles s \<noteq> []) = (inflight v \<le> int (idleConnections v))"
    using ok by auto
  have b: "int (idleConnections v) < inflight v + 1 \<longrightarrow> idle_handles (requestStarted s) = []"
    using filter_all_equal[OF ok(1)] assms(2)
    by (simp add: requestStarted_def idle_handles_clearTimeout)
  have c: "inflight v = int (idleConnections v) + 1 \<longrightarrow>
            timers (requestFinished s) = timers s @ [(next_handle s, clock s + idleTime v, TimeoutDone)] \<and>
            idle_handles (requestFinished s) = [next_handle s] \<and>
            map_option timeout (idle (requestFinished s)) = Some (next_handle s) \<and>
            map_option inflight (idle (requestFinished s)) = Some (int (idleConnections v))"
    using ok(2) assms(2) by (auto simp: requestFinished_def setTimeout_def idle_handles_def)
  from a ok(1) b c show ?thesis by blast
qed


text \<open>
  With the defaults, the wait begins with timer 0 armed; the first request disarms it,
  and the end of that request arms timer 2 for 500 milliseconds.
\<close>

theorem idle_timer_armed_iff_witness:
  "idle (run [Deliver ''Network.requestWillBeSent''] (start (WaitForNetworkIdle None) new_page))
     = Some \<lparr>idleTime = 500, idleConnections = 0, timeout = 0, inflight = 1,
              idle_promise = Pending, idle_deadline = Pending\<rparr> \<and>
   idle_handles (start (WaitForNetworkIdle None) new_page) = [0] \<and>
   idle_handles (run [Deliver ''Network.requestWillBeSent''] (start (WaitForNetworkIdle None) new_page))
     = [] \<and>
   timers (requestFinished
       (run [Deliver ''Network.requestWillBeSent''] (start (WaitForNetworkIdle None) new_page)))
     = [(1, 10000, DeadlineTimer IdleWait), (2, 500, TimeoutDone)]"
proof -
  let ?s = "run [Deliver ''Network.requestWillBeSent''] (start (WaitForNetworkIdle None) new_page)"
  let ?v = "\<lparr>idleTime = 500, idleConnections = 0, timeout = 0, inflight = 1,
              idle_promise = Pending, idle_deadline = Pending\<rparr>"
  have v: "idle ?s = Some ?v" by (simp add: loop_defs)
  have t: "timers ?s = [(1, 10000, DeadlineTimer IdleWait)]" "next_handle ?s = 2" "clock ?s = 0"
    by (simp_all add: loop_defs)
  have h: "idle_handles (start (WaitForNetworkIdle None) new_page) = [0]"
    by (simp add: loop_defs)
  from idle_timer_armed_iff[OF refl v] v t h show ?thesis by simp
qed

section \<open>Properties of the subscriptions of a wait\<close>

lemma subscribed_other_update [simp]:
  "subscribed (s\<lparr>clock := c\<rparr>) = subscribed s"
  "subscribed (s\<lparr>timers := ts\<rparr>) = subscribed s"
  "subscribed (s\<lparr>next_handle := nh\<rparr>) = subscribed s"
  "subscribed (s\<lparr>sent := cs\<rparr>) = subscribed s"
  "subscribed (s\<lparr>navigation := n\<rparr>) = subscribed s"
  "subscribed (s\<lparr>goto := g\<rparr>) = subscribed s"
  by (simp_all add: subscribed_def)

lemma calm_subscribed:
  assumes "calm s s'" and "subscribed s"
  shows "subscribed s'"
proof -
  from assms(1) have "(idle s' = None) = (idle s = None)"
    unfolding calm_def by (metis option.map_disc_iff)
  with assms show ?thesis by (simp add: calm_def subscribed_def)
qed

lemma subscribed_idle_update:
  "idle s = Some v \<Longrightarrow> subscribed (s\<lparr>idle := Some v'\<rparr>) = subscribed s"
  by (simp add: subscribed_def)

lemma subscribed_load_update:
  "load s = Some l \<Longrightarrow> subscribed (s\<lparr>load := Some l'\<rparr>) = subscribed s"
  by (simp add: subscribed_def)

lemma subscribed_resolve_idle: "subscribed s \<Longrightarrow> subscribed (resolve_idle s)"
  by (auto simp: resolve_idle_def subscribed_idle_update split: option.splits
      intro: calm_subscribed[OF calm_idle_deadline_settled])

lemma subscribed_timeoutDone: "subscribed s \<Longrightarrow> subscribed (timeoutDone s)"
  unfolding timeoutDone_def
  by (rule subscribed_resolve_idle) (simp add: subscribed_def removeEventListener_def)

lemma subscribed_requestStarted: "subscribed s \<Longrightarrow> subscribed (requestStarted s)"
  by (auto simp: requestStarted_def clearTimeout_def subscribed_idle_update Let_def
      split: option.splits)

lemma subscribed_requestFinished: "subscribed s \<Longrightarrow> subscribed (requestFinished s)"
  by (auto simp: requestFinished_def setTimeout_def subscribed_def split: option.splits)

lemma subscribed_retryDeadline [simp]: "subscribed (retryDeadline w s) = subscribed s"
  by (simp add: retryDeadline_def setTimeout_def)

lemma subscribed_waitForNetworkIdle: "subscribed s \<Longrightarrow> subscribed (waitForNetworkIdle options s)"
  by (simp add: waitForNetworkIdle_def setTimeout_def Let_def)
     (auto simp: subscribed_def addEventListener_def)

lemma subscribed_waitForNavigation_promise:
  "subscribed s \<Longrightarrow> subscribed (waitForNavigation_promise w s)"
proof -
  assume s: "subscribed s"
  have "subscribed (addEventListener ''Page.loadEventFired'' Callback
            (s\<lparr>load := Some \<lparr>load_promise = Pending, load_deadline = Pending\<rparr>\<rparr>))"
    using s by (auto simp: subscribed_def addEventListener_def)
  with s show ?thesis
    by (simp add: waitForNavigation_promise_def Let_def subscribed_waitForNetworkIdle)
qed

lemma subscribed_load_deadline_settled:
  assumes "subscribed s"
  shows "subscribed (load_deadline_settled out s)"
proof (cases "load s")
  case None
  with assms show ?thesis by (simp add: load_deadline_settled_def)
next
  case (Some l)
  let ?s0 = "s\<lparr>load := Some (l\<lparr>load_deadline := out\<rparr>)\<rparr>"
  let ?s1 = "(if out = Resolved then clearDeadline LoadWait else id) ?s0"
  have "subscribed ?s0" using assms Some by (simp add: subscribed_load_update)
  moreover have "calm ?s0 ?s1" by (simp add: calm_refl calm_clearDeadline)
  ultimately have 1: "subscribed ?s1" by (rule calm_subscribed[rotated])
  show ?thesis
    using Some 1 calm_subscribed[OF calm_all_settled 1]
      calm_subscribed[OF calm_navigation_returned 1]
      subscribed_waitForNavigation_promise[OF 1] assms
    by (auto simp: load_deadline_settled_def Let_def split: option.split)
qed

lemma subscribed_callback: "subscribed s \<Longrightarrow> subscribed (callback s)"
proof (cases "load s")
  case None
  then show "subscribed s \<Longrightarrow> ?thesis" by (simp add: callback_def)
next
  case (Some l)
  assume s: "subscribed s"
  have "subscribed (removeEventListener ''Page_loadEventFired'' Callback
          (s\<lparr>load := Some (l\<lparr>load_promise := Resolved\<rparr>)\<rparr>))"
    using s Some by (simp add: subscribed_def removeEventListener_def)
  then show ?thesis
    using Some by (simp add: callback_def Let_def subscribed_load_deadline_settled)
qed

lemma subscribed_invoke: "subscribed s \<Longrightarrow> subscribed (invoke t cb s)"
  by (cases cb)
     (simp_all add: invoke_def subscribed_callback subscribed_requestStarted subscribed_requestFinished)

lemma subscribed_fire: "subscribed s \<Longrightarrow> subscribed (fire x s)"
proof -
  assume s: "subscribed s"
  have 0: "subscribed (clearTimeout h (s\<lparr>clock := c\<rparr>))" for h c
    using s by (simp add: clearTimeout_def)
  have "subscribed (run_task k (clearTimeout h (s\<lparr>clock := c\<rparr>)))" for k h c
  proof (cases k)
    case TimeoutDone
    then show ?thesis using subscribed_timeoutDone[OF 0] by simp
  next
    case (DeadlineTimer w)
    then show ?thesis
      by (cases w)
         (simp_all add: subscribed_load_deadline_settled[OF 0]
           calm_subscribed[OF calm_idle_deadline_settled 0]
           calm_subscribed[OF calm_navigation_deadline_settled 0]
           calm_subscribed[OF calm_command_settled 0])
  qed
  with s show ?thesis by (simp add: fire_def)
qed

lemma subscribed_step: "subscribed s \<Longrightarrow> subscribed (step i s)"
proof (cases i)
  case (Deliver t)
  assume "subscribed s"
  then have "subscribed (dispatchEvent t s)"
    unfolding dispatchEvent_def
    by (rule fold_invariant[where P = subscribed, rotated]) (rule subscribed_invoke)
  with Deliver show ?thesis by simp
next
  case Response
  assume "subscribed s"
  with Response show ?thesis by (simp add: calm_subscribed[OF calm_command_settled])
next
  case (Elapse d)
  assume "subscribed s"
  then have "subscribed (fold fire xs s)" for xs
    by (rule fold_invariant[where P = subscribed, rotated]) (rule subscribed_fire)
  with Elapse show ?thesis by (simp add: elapse_def)
qed

lemma subscribed_start: "subscribed (start c new_page)"
proof -
  have n: "subscribed (retryDeadline Command (new_page\<lparr>sent := x\<rparr>))" for x
    by (simp add: new_page_def, simp add: subscribed_def)
  have w: "subscribed s \<Longrightarrow> subscribed (waitForNavigation options s)" for s options
    using subscribed_waitForNavigation_promise[of s]
    by (simp add: waitForNavigation_def Let_def)
  show ?thesis
  proof (cases c)
    case (WaitForNetworkIdle options)
    then show ?thesis
      using subscribed_waitForNetworkIdle[of new_page] by (simp add: subscribed_def new_page_def)
  next
    case (WaitForNavigation options)
    then show ?thesis using w[of new_page] by (simp add: subscribed_def new_page_def)
  next
    case (Goto url options)
    then show ?thesis using w[OF n] by (simp add: goto_page_def Let_def)
  next
    case (Reload options)
    then show ?thesis using w[OF n] by (simp add: reload_def Let_def)
  qed
qed

lemma subscribed_reachable: "subscribed (run ins (start c new_page))"
  unfolding run_def
  by (rule fold_invariant[where P = subscribed]) (erule subscribed_step, rule subscribed_start)

text \<open>
  The code removes listeners under names it never registered them under, so whatever a
  wait has registered stays on the protocol client in every state the loop reaches.
\<close>

lemma registered_listeners_stay:
  assumes "s = run ins (start c new_page)"
  shows "(idle s \<noteq> None \<longrightarrow>
            (''Network.requestWillBeSent'', RequestStarted) \<in> set (listeners s) \<and>
            (''Network.loadingFailed'', RequestFinished) \<in> set (listeners s) \<and>
            (''Network.loadingFinished'', RequestFinished) \<in> set (listeners s)) \<and>
         (load s \<noteq> None \<longrightarrow> (''Page.loadEventFired'', Callback) \<in> set (listeners s))"
  using subscribed_reachable[of ins c] unfolding assms by (auto simp: subscribed_def)

text \<open>
  Claim C1. When a wait created by \<^verbatim>\<open>waitForNetworkIdle\<close>, or by \<^verbatim>\<open>waitForNavigation\<close> with
  the \<^verbatim>\<open>load\<close> criterion, completes, every subscription it registered on the protocol
  client should be released. The code attempts the release and misses it:
  \<^verbatim>\<open>timeoutDone\<close> and \<^verbatim>\<open>callback\<close> call \<^verbatim>\<open>removeEventListener\<close> with the event names spelled
  with an underscore, and the listeners are registered under the names with a dot. A
  network-idle wait with the defaults on a silent page resolves after 500 milliseconds,
  and a load wait resolves on the load event: in both states the listeners the wait
  registered are still subscribed. They are so as well after the deadline has rejected
  an idle wait whose single request never ends, and a load wait with no load event.
\<close>

theorem wait_completion_keeps_listeners:
  "map_option idle_deadline (idle (run [Elapse 500] (start (WaitForNetworkIdle None) new_page)))
     = Some Resolved \<and>
   listeners (run [Elapse 500] (start (WaitForNetworkIdle None) new_page))
     = [(''Network.requestWillBeSent'', RequestStarted),
        (''Network.loadingFailed'', RequestFinished),
        (''Network.loadingFinished'', RequestFinished)] \<and>
   map_option idle_deadline (idle (run [Deliver ''Network.requestWillBeSent'', Elapse 10000]
       (start (WaitForNetworkIdle None) new_page)))
     = Some Rejected \<and>
   listeners (run [Deliver ''Network.requestWillBeSent'', Elapse 10000]
       (start (WaitForNetworkIdle None) new_page))
     = [(''Network.requestWillBeSent'', RequestStarted),
        (''Network.loadingFailed'', RequestFinished),
        (''Network.loadingFinished'', RequestFinished)] \<and>
   map_option load_deadline (load (run [Deliver ''Page.loadEventFired'']
       (start (WaitForNavigation (Some \<lparr>opt_waitUntil = Some Load\<rparr>)) new_page)))
     = Some Resolved \<and>
   listeners (run [Deliver ''Page.loadEventFired'']
       (start (WaitForNavigation (Some \<lparr>opt_waitUntil = Some Load\<rparr>)) new_page))
     = [(''Page.loadEventFired'', Callback)] \<and>
   map_option load_deadline (load (run [Elapse 10000]
       (start (WaitForNavigation (Some \<lparr>opt_waitUntil = Some Load\<rparr>)) new_page)))
     = Some Rejected \<and>
   listeners (run [Elapse 10000]
       (start (WaitForNavigation (Some \<lparr>opt_waitUntil = Some Load\<rparr>)) new_page))
     = [(''Page.loadEventFired'', Callback)]"
  by (simp add: loop_defs)

section \<open>Properties of \<^verbatim>\<open>waitForNavigation\<close>\<close>

text \<open>
  A property of pages that does not look at the clock or at the timers, and that every
  callback and every task of the page keeps, holds along every run of the loop.
\<close>

lemma run_preserves:
  assumes clock: "\<And>s c. Q (s\<lparr>clock := c\<rparr>) = Q s"
    and timers: "\<And>s ts. Q (s\<lparr>timers := ts\<rparr>) = Q s"
    and cb: "\<And>s. Q s \<Longrightarrow> Q (callback s)"
    and rs: "\<And>s. Q s \<Longrightarrow> Q (requestStarted s)"
    and rf: "\<And>s. Q s \<Longrightarrow> Q (requestFinished s)"
    and td: "\<And>s. Q s \<Longrightarrow> Q (timeoutDone s)"
    and ld: "\<And>s. Q s \<Longrightarrow> Q (load_deadline_settled Rejected s)"
    and idl: "\<And>s. Q s \<Longrightarrow> Q (idle_deadline_settled Rejected s)"
    and nd: "\<And>s. Q s \<Longrightarrow> Q (navigation_deadline_settled Rejected s)"
    and cs: "\<And>s out. out \<noteq> Pending \<Longrightarrow> Q s \<Longrightarrow> Q (command_settled out s)"
    and init: "Q s"
  shows "Q (run ins s)"
proof -
  have invoke: "Q (invoke t c s)" if "Q s" for t c s
    using that cb rs rf by (cases c) (simp_all add: invoke_def)
  have task: "Q (run_task k s)" if "Q s" for k s
  proof (cases k)
    case TimeoutDone
    with that td show ?thesis by simp
  next
    case (DeadlineTimer w)
    with that ld idl nd cs show ?thesis by (cases w) simp_all
  qed
  have fire: "Q (fire x s)" if "Q s" for x s
  proof -
    have "Q (clearTimeout (fst x) (s\<lparr>clock := max (clock s) (fst (snd x))\<rparr>))"
      using that by (simp add: clearTimeout_def clock timers)
    then show ?thesis using that task by (simp add: fire_def)
  qed
  have step: "Q (step i s)" if "Q s" for i s
  proof (cases i)
    case (Deliver t)
    have "Q (fold (invoke t) cbs s)" for cbs
      by (rule fold_invariant[where P = Q]) (erule invoke, rule that)
    with Deliver show ?thesis by (simp add: dispatchEvent_def)
  next
    case Response
    with that cs show ?thesis by simp
  next
    case (Elapse d)
    have "Q (fold fire xs s)" for xs
      by (rule fold_invariant[where P = Q]) (erule fire, rule that)
    with Elapse show ?thesis by (simp add: elapse_def clock)
  qed
  show ?thesis
    unfolding run_def by (rule fold_invariant[where P = Q]) (erule step, rule init)
qed

lemma clearDeadline_fields [simp]:
  "clock (clearDeadline w s) = clock s" "listeners (clearDeadline w s) = listeners s"
  "next_handle (clearDeadline w s) = next_handle s" "sent (clearDeadline w s) = sent s"
  "idle (clearDeadline w s) = idle s" "load (clearDeadline w s) = load s"
  "navigation (clearDeadline w s) = navigation s" "goto (clearDeadline w s) = goto s"
  by (simp_all add: clearDeadline_def)

lemma all_settled_fields [simp]:
  "idle (all_settled out s) = idle s" "load (all_settled out s) = load s"
  "navigation (all_settled out s) = navigation s" "listeners (all_settled out s) = listeners s"
  by (simp_all add: all_settled_def split: option.split)

lemma command_settled_fields [simp]:
  "idle (command_settled out s) = idle s" "load (command_settled out s) = load s"
  "navigation (command_settled out s) = navigation s"
  by (simp_all add: command_settled_def split: option.split)

lemma navigation_order_cong:
  "idle s' = idle s \<Longrightarrow> load s' = load s \<Longrightarrow> navigation s' = navigation s \<Longrightarrow>
   navigation_order w s' = navigation_order w s"
  by (simp add: navigation_order_def cong: option.case_cong)

lemma navigation_order_other [simp]:
  "navigation_order w (s\<lparr>clock := c\<rparr>) = navigation_order w s"
  "navigation_order w (s\<lparr>timers := ts\<rparr>) = navigation_order w s"
  "navigation_order w (s\<lparr>listeners := ls\<rparr>) = navigation_order w s"
  "navigation_order w (s\<lparr>next_handle := nh\<rparr>) = navigation_order w s"
  "navigation_order w (s\<lparr>sent := cs\<rparr>) = navigation_order w s"
  "navigation_order w (s\<lparr>goto := g\<rparr>) = navigation_order w s"
  "navigation_order w (clearDeadline x s) = navigation_order w s"
  "navigation_order w (all_settled out s) = navigation_order w s"
  "navigation_order w (command_settled out s) = navigation_order w s"
  by (rule navigation_order_cong; simp)+

lemma navigation_order_navigation_returned:
  assumes "navigation_order w s"
    and "out \<noteq> Resolved \<or>
         (case navigation s of None \<Rightarrow> False
          | Some n \<Rightarrow> nav_deadline n = Some Resolved \<and>
              (case idle s of None \<Rightarrow> False | Some v \<Rightarrow> idle_deadline v = Resolved))"
  shows "navigation_order w (navigation_returned out s)"
  using assms
  by (auto simp: navigation_returned_def navigation_order_def split: option.splits)

lemma navigation_order_navigation_deadline_settled:
  assumes "navigation_order w s"
    and "out \<noteq> Resolved \<or> (case idle s of None \<Rightarrow> True | Some v \<Rightarrow> idle_deadline v = Resolved)"
  shows "navigation_order w (navigation_deadline_settled out s)"
proof (cases "navigation s")
  case None
  with assms show ?thesis by (simp add: navigation_deadline_settled_def)
next
  case (Some n)
  show ?thesis
  proof (cases "nav_deadline n = Some Pending")
    case False
    with assms Some show ?thesis by (simp add: navigation_deadline_settled_def)
  next
    case True
    let ?s1 = "(if out = Resolved then clearDeadline NavigationWait else id)
                 (s\<lparr>navigation := Some (n\<lparr>nav_deadline := Some out\<rparr>)\<rparr>)"
    have 1: "navigation_order w ?s1"
      using assms Some True
      by (auto simp: navigation_order_def split: option.splits)
    have 2: "out \<noteq> Resolved \<or>
         (case navigation ?s1 of None \<Rightarrow> False
          | Some n \<Rightarrow> nav_deadline n = Some Resolved \<and>
              (case idle ?s1 of None \<Rightarrow> False | Some v \<Rightarrow> idle_deadline v = Resolved))"
      using assms Some True
      by (auto simp: navigation_order_def split: option.splits)
    from navigation_order_navigation_returned[OF 1 2] Some True show ?thesis
      by (simp add: navigation_deadline_settled_def)
  qed
qed

lemma navigation_order_idle_deadline_settled:
  assumes "navigation_order w s"
  shows "navigation_order w (idle_deadline_settled out s)"
proof (cases "idle s")
  case None
  with assms show ?thesis by (simp add: idle_deadline_settled_def)
next
  case (Some v)
  show ?thesis
  proof (cases "idle_deadline v = Pending")
    case False
    with assms Some show ?thesis by (simp add: idle_deadline_settled_def)
  next
    case True
    show ?thesis
    proof (cases "out = Resolved")
      case R: True
      let ?s1 = "clearDeadline IdleWait (s\<lparr>idle := Some (v\<lparr>idle_deadline := Resolved\<rparr>)\<rparr>)"
      have 1: "navigation_order w ?s1"
        using assms Some True
        by (auto simp: navigation_order_def split: option.splits)
      have 2: "Resolved \<noteq> Resolved \<or>
          (case idle ?s1 of None \<Rightarrow> True | Some v \<Rightarrow> idle_deadline v = Resolved)"
        by simp
      from navigation_order_navigation_deadline_settled[OF 1 2] Some True R show ?thesis
        by (simp add: idle_deadline_settled_def)
    next
      case False
      with assms Some True show ?thesis
        by (auto simp: idle_deadline_settled_def navigation_order_def split: option.splits)
    qed
  qed
qed

lemma navigation_order_idle_update:
  "idle s = Some v \<Longrightarrow> idleTime v' = idleTime v \<Longrightarrow> idleConnections v' = idleConnections v \<Longrightarrow>
   idle_deadline v' = idle_deadline v \<Longrightarrow>
   navigation_order w (s\<lparr>idle := Some v'\<rparr>) = navigation_order w s"
  by (simp add: navigation_order_def split: option.splits)

lemma navigation_order_timeoutDone:
  "navigation_order w s \<Longrightarrow> navigation_order w (timeoutDone s)"
  by (auto simp: timeoutDone_def resolve_idle_def removeEventListener_def
      navigation_order_idle_update split: option.splits
      intro!: navigation_order_idle_deadline_settled)

lemma navigation_order_requestStarted:
  "navigation_order w s \<Longrightarrow> navigation_order w (requestStarted s)"
  by (auto simp: requestStarted_def clearTimeout_def navigation_order_idle_update Let_def
      split: option.splits)

lemma navigation_order_requestFinished:
  "navigation_order w s \<Longrightarrow> navigation_order w (requestFinished s)"
  by (auto simp: requestFinished_def setTimeout_def navigation_order_idle_update
      split: option.splits)

lemma navigation_order_resume:
  assumes "navigation s = Some n" "nav_waitUntil n = w" "w \<noteq> Some Load" "idle s = None"
    "load s = Some l" "load_deadline l = Resolved" "nav_returned n \<noteq> Resolved"
  shows "navigation_order w (waitForNavigation_promise w s)"
  using assms
  by (simp add: waitForNavigation_promise_def waitForNetworkIdle_def setTimeout_def
      retryDeadline_def addEventListener_def Let_def navigation_order_def)

lemma navigation_order_load_deadline_settled:
  assumes "navigation_order w s"
  shows "navigation_order w (load_deadline_settled out s)"
proof -
  from assms obtain n l where n: "navigation s = Some n" "nav_waitUntil n = w" "w \<noteq> Some Load"
    and l: "load s = Some l"
    by (auto simp: navigation_order_def split: option.splits)
  show ?thesis
  proof (cases "load_deadline l = Pending")
    case False
    with assms l show ?thesis by (simp add: load_deadline_settled_def)
  next
    case True
    with assms n l have i: "idle s = None" and r: "nav_returned n \<noteq> Resolved"
      and d: "nav_deadline n = None"
      by (auto simp: navigation_order_def split: option.splits)
    show ?thesis
    proof (cases "out = Resolved")
      case R: True
      let ?s1 = "clearDeadline LoadWait (s\<lparr>load := Some (l\<lparr>load_deadline := Resolved\<rparr>)\<rparr>)"
      have "navigation_order w (waitForNavigation_promise w ?s1)"
        by (rule navigation_order_resume[where n = n and l = "l\<lparr>load_deadline := Resolved\<rparr>"])
           (use n i r in simp_all)
      with l True R n show ?thesis by (simp add: load_deadline_settled_def)
    next
      case False
      let ?s1 = "s\<lparr>load := Some (l\<lparr>load_deadline := out\<rparr>)\<rparr>"
      have 1: "navigation_order w ?s1"
        using n l i r d False by (simp add: navigation_order_def)
      have "navigation_order w (navigation_returned out ?s1)"
        by (rule navigation_order_navigation_returned[OF 1]) (use False in simp)
      with l True False n show ?thesis by (simp add: load_deadline_settled_def)
    qed
  qed
qed

lemma navigation_order_callback:
  assumes "navigation_order w s"
  shows "navigation_order w (callback s)"
proof -
  from assms obtain l where l: "load s = Some l"
    by (auto simp: navigation_order_def split: option.splits)
  let ?s1 = "removeEventListener ''Page_loadEventFired'' Callback
                      (s\<lparr>load := Some (l\<lparr>load_promise := Resolved\<rparr>)\<rparr>)"
  have "navigation_order w ?s1"
    using assms l by (simp add: removeEventListener_def navigation_order_def split: option.splits)
  with l show ?thesis
    by (simp add: callback_def Let_def navigation_order_load_deadline_settled)
qed

lemma navigation_order_start:
  assumes "criterion options \<noteq> Some Load"
  shows "navigation_order (criterion options) (start (WaitForNavigation options) new_page)"
proof -
  have "navigation_order w
     ((waitForNavigation_promise (Some Load) new_page)
        \<lparr>navigation := Some \<lparr>nav_waitUntil = w, nav_deadline = None, nav_returned = Pending\<rparr>\<rparr>)"
    if "w \<noteq> Some Load" for w
    using that
    by (simp add: waitForNavigation_promise_def retryDeadline_def setTimeout_def
        addEventListener_def new_page_def navigation_order_def)
  with assms show ?thesis
    by (cases options) (simp_all add: criterion_def waitForNavigation_def)
qed

lemma navigation_order_reachable:
  assumes "criterion options \<noteq> Some Load"
  shows "navigation_order (criterion options) (run ins (start (WaitForNavigation options) new_page))"
  by (rule run_preserves[where Q = "navigation_order (criterion options)",
        OF _ _ _ _ _ _ _ _ _ _ navigation_order_start[OF assms]])
     (simp_all add: navigation_order_callback navigation_order_requestStarted
       navigation_order_requestFinished navigation_order_timeoutDone
       navigation_order_load_deadline_settled navigation_order_idle_deadline_settled
       navigation_order_navigation_deadline_settled)

text \<open>
  Claim C4. A call of \<^verbatim>\<open>waitForNavigation\<close> with a criterion other than \<^verbatim>\<open>load\<close>, the
  default \<^verbatim>\<open>networkidle2\<close> among them, first waits for a full \<^verbatim>\<open>load\<close> wait: in every
  state the loop reaches, a network-idle wait exists exactly when the load wait has
  resolved, it has the idle time 500 and the threshold 0 for \<^verbatim>\<open>networkidle0\<close> and 2
  otherwise, and the call has resolved only if the load wait and then the idle wait have
  resolved.
\<close>

theorem waitForNavigation_load_first:
  assumes "s = run ins (start (WaitForNavigation options) new_page)"
    and "criterion options \<noteq> Some Load"
  shows "\<exists>n l. navigation s = Some n \<and> load s = Some l \<and>
           navigation_promise s = nav_returned n \<and>
           (idle s \<noteq> None) = (load_deadline l = Resolved) \<and>
           (nav_returned n = Resolved \<longrightarrow>
              load_deadline l = Resolved \<and> map_option idle_deadline (idle s) = Some Resolved) \<and>
           (idle s \<noteq> None \<longrightarrow>
              map_option idleTime (idle s) = Some 500 \<and>
              map_option idleConnections (idle s)
                = Some (if criterion options = Some Networkidle0 then 0 else 2))"
  using navigation_order_reachable[OF assms(2), of ins] unfolding assms(1)
  by (auto simp: navigation_order_def navigation_promise_def split: option.splits)

text \<open>
  The default criterion: before the load event nothing but the load wait exists,
  however long the network has been silent; the load event starts the idle wait with
  500 and 2; 500 silent milliseconds later the call has resolved.
\<close>

theorem waitForNavigation_load_first_witness:
  "idle (run [Elapse 9000] (start (WaitForNavigation None) new_page)) = None \<and>
   navigation_promise (run [Elapse 9000] (start (WaitForNavigation None) new_page)) = Pending \<and>
   idle (run [Elapse 9000, Deliver ''Page.loadEventFired''] (start (WaitForNavigation None) new_page))
     = Some \<lparr>idleTime = 500, idleConnections = 2, timeout = 1, inflight = 0,
              idle_promise = Pending, idle_deadline = Pending\<rparr> \<and>
   navigation_promise (run [Elapse 9000, Deliver ''Page.loadEventFired'', Elapse 500]
       (start (WaitForNavigation None) new_page)) = Resolved"
proof -
  have c: "criterion None \<noteq> Some Load" by (simp add: criterion_def)
  from waitForNavigation_load_first[OF refl c, of "[Elapse 9000]"]
    waitForNavigation_load_first[OF refl c, of "[Elapse 9000, Deliver ''Page.loadEventFired'']"]
    waitForNavigation_load_first[OF refl c, of "[Elapse 9000, Deliver ''Page.loadEventFired'', Elapse 500]"]
  show ?thesis by (simp add: loop_defs navigation_promise_def)
qed

section \<open>Properties of \<^verbatim>\<open>goto\<close> and \<^verbatim>\<open>reload\<close>\<close>

lemma all_ok_cong:
  "goto s' = goto s \<Longrightarrow> navigation_promise s' = navigation_promise s \<Longrightarrow> all_ok s' = all_ok s"
  by (simp add: all_ok_def cong: option.case_cong settle.case_cong)

lemma navigation_promise_other [simp]:
  "navigation_promise (s\<lparr>clock := c\<rparr>) = navigation_promise s"
  "navigation_promise (s\<lparr>timers := ts\<rparr>) = navigation_promise s"
  "navigation_promise (s\<lparr>listeners := ls\<rparr>) = navigation_promise s"
  "navigation_promise (s\<lparr>next_handle := nh\<rparr>) = navigation_promise s"
  "navigation_promise (s\<lparr>sent := cs\<rparr>) = navigation_promise s"
  "navigation_promise (s\<lparr>idle := i\<rparr>) = navigation_promise s"
  "navigation_promise (s\<lparr>goto := g\<rparr>) = navigation_promise s"
  "navigation_promise (clearDeadline w s) = navigation_promise s"
  "navigation_promise (all_settled out s) = navigation_promise s"
  by (simp_all add: navigation_promise_def cong: option.case_cong)

lemma all_ok_other [simp]:
  "all_ok (s\<lparr>clock := c\<rparr>) = all_ok s"
  "all_ok (s\<lparr>timers := ts\<rparr>) = all_ok s"
  "all_ok (s\<lparr>listeners := ls\<rparr>) = all_ok s"
  "all_ok (s\<lparr>next_handle := nh\<rparr>) = all_ok s"
  "all_ok (s\<lparr>sent := cs\<rparr>) = all_ok s"
  "all_ok (s\<lparr>idle := i\<rparr>) = all_ok s"
  "all_ok (clearDeadline w s) = all_ok s"
  by (rule all_ok_cong; simp)+

lemma all_ok_nav_deadline_update:
  "navigation s = Some n \<Longrightarrow>
   all_ok (s\<lparr>navigation := Some (n\<lparr>nav_deadline := d\<rparr>)\<rparr>) = all_ok s"
  by (rule all_ok_cong) (simp_all add: navigation_promise_def)

lemma all_ok_load_promise_update:
  "load s = Some l \<Longrightarrow>
   all_ok (s\<lparr>load := Some (l\<lparr>load_promise := p\<rparr>)\<rparr>) = all_ok s"
  by (rule all_ok_cong) (simp_all add: navigation_promise_def split: option.splits)

text \<open>
  One element of \<^verbatim>\<open>Promise.all\<close> has just settled with \<open>out\<close>, the other is as it
  was: the reaction of \<^verbatim>\<open>Promise.all\<close> restores the relation.
\<close>

lemma all_ok_all_settled:
  assumes ok: "all_ok s" and g: "goto s = Some g" and g1: "goto s1 = Some g1"
    and same: "all_promise g1 = all_promise g" "all_remaining g1 = all_remaining g"
    and out: "out \<noteq> Pending"
    and one: "command_deadline g = Pending \<and> command_deadline g1 = out \<and>
                navigation_promise s1 = navigation_promise s \<or>
              navigation_promise s = Pending \<and> navigation_promise s1 = out \<and>
                command_deadline g1 = command_deadline g"
  shows "all_ok (all_settled out s1)"
proof (cases "all_promise g")
  case Resolved
  with ok g one show ?thesis by (auto simp: all_ok_def)
next
  case Rejected
  with ok g have "command_deadline g = Rejected \<or> navigation_promise s = Rejected"
    by (simp add: all_ok_def)
  with one have "command_deadline g1 = Rejected \<or> navigation_promise s1 = Rejected" by auto
  with Rejected g1 same show ?thesis by (simp add: all_settled_def all_ok_def)
next
  case Pending
  with ok g have p: "command_deadline g \<noteq> Rejected" "navigation_promise s \<noteq> Rejected"
    "all_remaining g = (if command_deadline g = Resolved then 0 else 1) +
                 (if navigation_promise s = Resolved then 0 else 1)"
    by (auto simp: all_ok_def)
  show ?thesis
  proof (cases "out = Rejected")
    case True
    with one have "command_deadline g1 = Rejected \<or> navigation_promise s1 = Rejected" by auto
    with True Pending g1 same show ?thesis by (simp add: all_settled_def all_ok_def)
  next
    case False
    with out have R: "out = Resolved" by (cases out) simp_all
    from one show ?thesis
    proof
      assume c: "command_deadline g = Pending \<and> command_deadline g1 = out \<and>
                navigation_promise s1 = navigation_promise s"
      with p R Pending g1 same show ?thesis
        by (cases "navigation_promise s = Resolved") (simp_all add: all_settled_def all_ok_def)
    next
      assume n: "navigation_promise s = Pending \<and> navigation_promise s1 = out \<and>
                command_deadline g1 = command_deadline g"
      with p R Pending g1 same show ?thesis
        by (cases "command_deadline g = Resolved") (simp_all add: all_settled_def all_ok_def)
    qed
  qed
qed

lemma all_ok_command_settled:
  assumes "out \<noteq> Pending" "all_ok s"
  shows "all_ok (command_settled out s)"
proof -
  from assms(2) obtain g where g: "goto s = Some g"
    by (auto simp: all_ok_def split: option.splits)
  show ?thesis
  proof (cases "command_deadline g = Pending")
    case False
    with assms g show ?thesis by (simp add: command_settled_def)
  next
    case True
    let ?s1 = "(if out = Resolved then clearDeadline Command else id)
                    (s\<lparr>goto := Some (g\<lparr>command_deadline := out\<rparr>)\<rparr>)"
    have "all_ok (all_settled out ?s1)"
      by (rule all_ok_all_settled[OF assms(2) g, where ?g1.0 = "g\<lparr>command_deadline := out\<rparr>"])
         (use True assms(1) in simp_all)
    with g True show ?thesis by (simp add: command_settled_def)
  qed
qed

lemma all_ok_navigation_returned:
  assumes "out \<noteq> Pending" "all_ok s"
  shows "all_ok (navigation_returned out s)"
proof (cases "navigation s")
  case None
  with assms show ?thesis by (simp add: navigation_returned_def)
next
  case (Some n)
  from assms(2) obtain g where g: "goto s = Some g"
    by (auto simp: all_ok_def split: option.splits)
  show ?thesis
  proof (cases "nav_returned n = Pending")
    case False
    with assms Some show ?thesis by (simp add: navigation_returned_def)
  next
    case True
    let ?s1 = "s\<lparr>navigation := Some (n\<lparr>nav_returned := out\<rparr>)\<rparr>"
    have "all_ok (all_settled out ?s1)"
      by (rule all_ok_all_settled[OF assms(2) g, where ?g1.0 = g])
         (use True Some g assms(1) in \<open>simp_all add: navigation_promise_def\<close>)
    with Some True show ?thesis by (simp add: navigation_returned_def)
  qed
qed

lemma all_ok_navigation_deadline_settled:
  assumes "out \<noteq> Pending" "all_ok s"
  shows "all_ok (navigation_deadline_settled out s)"
proof (cases "navigation s")
  case None
  with assms show ?thesis by (simp add: navigation_deadline_settled_def)
next
  case (Some n)
  have "all_ok ((if out = Resolved then clearDeadline NavigationWait else id)
                    (s\<lparr>navigation := Some (n\<lparr>nav_deadline := Some out\<rparr>)\<rparr>))"
    using assms(2) Some by (simp add: all_ok_nav_deadline_update)
  from all_ok_navigation_returned[OF assms(1) this] assms(2) Some show ?thesis
    by (simp add: navigation_deadline_settled_def)
qed

lemma all_ok_idle_deadline_settled:
  assumes "all_ok s"
  shows "all_ok (idle_deadline_settled out s)"
proof (cases "idle s")
  case None
  with assms show ?thesis by (simp add: idle_deadline_settled_def)
next
  case (Some v)
  have "all_ok (navigation_deadline_settled Resolved
                   (clearDeadline IdleWait (s\<lparr>idle := Some (v\<lparr>idle_deadline := Resolved\<rparr>)\<rparr>)))"
    by (rule all_ok_navigation_deadline_settled) (use assms in simp_all)
  with assms Some show ?thesis by (simp add: idle_deadline_settled_def)
qed

lemma all_ok_timeoutDone: "all_ok s \<Longrightarrow> all_ok (timeoutDone s)"
  by (auto simp: timeoutDone_def resolve_idle_def removeEventListener_def split: option.splits
      intro!: all_ok_idle_deadline_settled)

lemma all_ok_requestStarted: "all_ok s \<Longrightarrow> all_ok (requestStarted s)"
  by (auto simp: requestStarted_def clearTimeout_def Let_def split: option.splits)

lemma all_ok_requestFinished: "all_ok s \<Longrightarrow> all_ok (requestFinished s)"
  by (auto simp: requestFinished_def setTimeout_def split: option.splits)

lemma addEventListener_fields [simp]:
  "load (addEventListener t cb s) = load s" "navigation (addEventListener t cb s) = navigation s"
  "goto (addEventListener t cb s) = goto s" "idle (addEventListener t cb s) = idle s"
  by (simp_all add: addEventListener_def)

lemma retryDeadline_fields [simp]:
  "load (retryDeadline w s) = load s" "navigation (retryDeadline w s) = navigation s"
  "goto (retryDeadline w s) = goto s" "idle (retryDeadline w s) = idle s"
  "listeners (retryDeadline w s) = listeners s" "sent (retryDeadline w s) = sent s"
  by (simp_all add: retryDeadline_def setTimeout_def)

lemma waitForNetworkIdle_fields [simp]:
  "load (waitForNetworkIdle options s) = load s"
  "navigation (waitForNetworkIdle options s) = navigation s"
  "goto (waitForNetworkIdle options s) = goto s"
  by (simp_all add: waitForNetworkIdle_def setTimeout_def Let_def)

lemma all_ok_resume:
  assumes "navigation s \<noteq> None" "all_ok s"
  shows "all_ok (waitForNavigation_promise w s)"
proof -
  from assms(1) obtain n where n: "navigation s = Some n" by blast
  have "goto (waitForNavigation_promise w s) = goto s"
    by (simp add: waitForNavigation_promise_def Let_def)
  moreover have "navigation_promise (waitForNavigation_promise w s) = navigation_promise s"
    using n by (simp add: waitForNavigation_promise_def Let_def navigation_promise_def)
  ultimately show ?thesis
    using assms(2) all_ok_cong[of "waitForNavigation_promise w s" s] by simp
qed

lemma all_ok_load_deadline_settled:
  assumes "out \<noteq> Pending" "all_ok s"
  shows "all_ok (load_deadline_settled out s)"
proof (cases "load s")
  case None
  with assms show ?thesis by (simp add: load_deadline_settled_def)
next
  case (Some l)
  show ?thesis
  proof (cases "load_deadline l = Pending")
    case False
    with assms Some show ?thesis by (simp add: load_deadline_settled_def)
  next
    case True
    let ?s0 = "s\<lparr>load := Some (l\<lparr>load_deadline := out\<rparr>)\<rparr>"
    let ?s1 = "(if out = Resolved then clearDeadline LoadWait else id) ?s0"
    show ?thesis
    proof (cases "navigation s")
      case None
      then have "load_deadline_settled out s = all_settled out ?s1"
        using Some True by (simp add: load_deadline_settled_def Let_def)
      moreover have "all_ok (all_settled out ?s1)"
      proof -
        from assms(2) obtain g where g: "goto s = Some g"
          by (auto simp: all_ok_def split: option.splits)
        show ?thesis
          by (rule all_ok_all_settled[OF assms(2) g, where ?g1.0 = g])
             (use True Some None g assms(1) in \<open>auto simp: navigation_promise_def\<close>)
      qed
      ultimately show ?thesis by simp
    next
      case n: (Some n)
      have "navigation_promise ?s1 = navigation_promise s" "goto ?s1 = goto s"
        using n by (simp_all add: navigation_promise_def)
      then have 1: "all_ok ?s1" using assms(2) all_ok_cong[of ?s1 s] by simp
      have 2: "navigation ?s1 \<noteq> None" using n by simp
      have eq: "load_deadline_settled out s =
          (if out = Resolved then waitForNavigation_promise (nav_waitUntil n) ?s1
           else navigation_returned out ?s1)"
        using Some True n by (simp add: load_deadline_settled_def Let_def)
      show ?thesis
        unfolding eq
        using all_ok_resume[OF 2 1, of "nav_waitUntil n"] all_ok_navigation_returned[OF assms(1) 1]
        by (cases "out = Resolved") simp_all
    qed
  qed
qed

lemma all_ok_callback: "all_ok s \<Longrightarrow> all_ok (callback s)"
proof (cases "load s")
  case None
  then show "all_ok s \<Longrightarrow> ?thesis" by (simp add: callback_def)
next
  case (Some l)
  assume s: "all_ok s"
  have "all_ok (removeEventListener ''Page_loadEventFired'' Callback
          (s\<lparr>load := Some (l\<lparr>load_promise := Resolved\<rparr>)\<rparr>))"
    using s Some by (simp add: removeEventListener_def all_ok_load_promise_update)
  then show ?thesis
    using Some by (simp add: callback_def Let_def all_ok_load_deadline_settled)
qed

lemma waitForNavigation_started:
  "navigation_promise (waitForNavigation options (retryDeadline Command (new_page\<lparr>sent := x\<rparr>)))
     = Pending"
  "load (waitForNavigation options (retryDeadline Command (new_page\<lparr>sent := x\<rparr>)))
     = Some \<lparr>load_promise = Pending, load_deadline = Pending\<rparr>"
  "listeners (waitForNavigation options (retryDeadline Command (new_page\<lparr>sent := x\<rparr>)))
     = [(''Page.loadEventFired'', Callback)]"
  "timers (waitForNavigation options (retryDeadline Command (new_page\<lparr>sent := x\<rparr>)))
     = [(0, 10000, DeadlineTimer Command), (1, 10000, DeadlineTimer LoadWait)]"
  "sent (waitForNavigation options (retryDeadline Command (new_page\<lparr>sent := x\<rparr>))) = x"
  by (simp_all add: waitForNavigation_def waitForNavigation_promise_def retryDeadline_def
      setTimeout_def addEventListener_def new_page_def navigation_promise_def timeout_ms_def Let_def
      split: option.splits)

lemma all_ok_start:
  "all_ok (start (Goto url gopts) new_page)" "all_ok (start (Reload wopts) new_page)"
  by (simp_all add: goto_page_def reload_def Let_def all_ok_def waitForNavigation_started)

lemma all_ok_goto: "all_ok (run ins (start (Goto url gopts) new_page))"
  by (rule run_preserves[where Q = all_ok, OF _ _ _ _ _ _ _ _ _ _ all_ok_start(1)])
     (simp_all add: all_ok_callback all_ok_requestStarted all_ok_requestFinished
        all_ok_timeoutDone all_ok_load_deadline_settled all_ok_idle_deadline_settled
        all_ok_navigation_deadline_settled all_ok_command_settled)

lemma all_ok_reload: "all_ok (run ins (start (Reload wopts) new_page))"
  by (rule run_preserves[where Q = all_ok, OF _ _ _ _ _ _ _ _ _ _ all_ok_start(2)])
     (simp_all add: all_ok_callback all_ok_requestStarted all_ok_requestFinished
        all_ok_timeoutDone all_ok_load_deadline_settled all_ok_idle_deadline_settled
        all_ok_navigation_deadline_settled all_ok_command_settled)

text \<open>
  Claim C7. \<^verbatim>\<open>goto\<close> and \<^verbatim>\<open>reload\<close> start the command and the navigation wait together:
  when the call has run up to its \<^verbatim>\<open>await\<close>, before the loop has taken any input, the
  command has been sent and is under its deadline, and the load listener of
  \<^verbatim>\<open>waitForNavigation\<close> is registered and under its deadline. And in every state the loop
  reaches, the call has resolved exactly when both the deadline-wrapped command and the
  promise of \<^verbatim>\<open>waitForNavigation\<close> have resolved.
\<close>

theorem goto_reload_resolve_after_both:
  assumes "c \<in> {Goto url gopts, Reload wopts}" and "s = run ins (start c new_page)"
  shows "sent (start (Goto url gopts) new_page)
           = [Page_navigate url (case gopts of None \<Rightarrow> None | Some x \<Rightarrow> goto_waitUntil x)
                (case gopts of None \<Rightarrow> None | Some x \<Rightarrow> goto_referrer x)] \<and>
         sent (start (Reload wopts) new_page) = [Page_reload] \<and>
         listeners (start c new_page) = [(''Page.loadEventFired'', Callback)] \<and>
         timers (start c new_page)
           = [(0, 10000, DeadlineTimer Command), (1, 10000, DeadlineTimer LoadWait)] \<and>
         goto (start c new_page)
           = Some \<lparr>command_deadline = Pending, all_remaining = 2, all_promise = Pending\<rparr> \<and>
         navigation_promise (start c new_page) = Pending \<and>
         (\<exists>g. goto s = Some g \<and>
            (all_promise g = Resolved)
              = (command_deadline g = Resolved \<and> navigation_promise s = Resolved))"
proof -
  have a: "all_ok s" using assms all_ok_goto[of ins] all_ok_reload[of ins] by auto
  then obtain g where g: "goto s = Some g" by (auto simp: all_ok_def split: option.splits)
  with a have "(all_promise g = Resolved)
              = (command_deadline g = Resolved \<and> navigation_promise s = Resolved)"
    by (cases "all_promise g") (auto simp: all_ok_def split: if_splits)
  with g have e: "\<exists>g. goto s = Some g \<and>
            (all_promise g = Resolved)
              = (command_deadline g = Resolved \<and> navigation_promise s = Resolved)" by blast
  have sn: "sent new_page = []" by (simp add: new_page_def)
  have b: "sent (start (Goto url gopts) new_page)
           = [Page_navigate url (case gopts of None \<Rightarrow> None | Some x \<Rightarrow> goto_waitUntil x)
                (case gopts of None \<Rightarrow> None | Some x \<Rightarrow> goto_referrer x)]"
    "sent (start (Reload wopts) new_page) = [Page_reload]"
    by (simp_all add: goto_page_def reload_def Let_def waitForNavigation_started sn
        split: option.split)
  have c: "listeners (start c new_page) = [(''Page.loadEventFired'', Callback)]"
    "timers (start c new_page)
           = [(0, 10000, DeadlineTimer Command), (1, 10000, DeadlineTimer LoadWait)]"
    "goto (start c new_page)
           = Some \<lparr>command_deadline = Pending, all_remaining = 2, all_promise = Pending\<rparr>"
    "navigation_promise (start c new_page) = Pending"
    using assms(1)
    by (auto simp: goto_page_def reload_def Let_def waitForNavigation_started)
  from b c e show ?thesis by blast
qed

text \<open>
  A \<^verbatim>\<open>goto\<close> with the criterion \<^verbatim>\<open>load\<close>: with only the response to the command, or only
  the load event, the call is pending; with both it has resolved.
\<close>

theorem goto_reload_resolve_after_both_witness:
  "map_option all_promise (goto (run [Response]
      (start (Goto ''https://deno.land''
         (Some \<lparr>goto_waitUntil = Some Load, goto_referrer = None\<rparr>)) new_page))) = Some Pending \<and>
   map_option all_promise (goto (run [Deliver ''Page.loadEventFired'']
      (start (Goto ''https://deno.land''
         (Some \<lparr>goto_waitUntil = Some Load, goto_referrer = None\<rparr>)) new_page))) = Some Pending \<and>
   map_option all_promise (goto (run [Deliver ''Page.loadEventFired'', Response]
      (start (Goto ''https://deno.land''
         (Some \<lparr>goto_waitUntil = Some Load, goto_referrer = None\<rparr>)) new_page))) = Some Resolved \<and>
   sent (start (Goto ''https://deno.land''
         (Some \<lparr>goto_waitUntil = Some Load, goto_referrer = None\<rparr>)) new_page)
     = [Page_navigate ''https://deno.land'' (Some Load) None]"
proof -
  let ?c = "Goto ''https://deno.land'' (Some \<lparr>goto_waitUntil = Some Load, goto_referrer = None\<rparr>)"
  have m: "?c \<in> {?c, Reload None}" by simp
  from goto_reload_resolve_after_both[OF m refl, of "[Response]"]
    goto_reload_resolve_after_both[OF m refl, of "[Deliver ''Page.loadEventFired'']"]
    goto_reload_resolve_after_both[OF m refl, of "[Deliver ''Page.loadEventFired'', Response]"]
  show ?thesis by (simp add: loop_defs navigation_promise_def)
qed

section \<open>A network-idle wait on a page with requests under way\<close>

lemma start_idle_wait_state:
  "start (WaitForNetworkIdle options) new_page =
     idle_wait_state
       (case options of None \<Rightarrow> 500
        | Some opts \<Rightarrow> (case opt_idleTime opts of None \<Rightarrow> 500 | Some x \<Rightarrow> x))
       (case options of None \<Rightarrow> 0
        | Some opts \<Rightarrow> (case opt_idleConnections opts of None \<Rightarrow> 0 | Some x \<Rightarrow> x))
       0 False False"
  by (simp add: idle_wait_state_def waitForNetworkIdle_def setTimeout_def retryDeadline_def
      addEventListener_def new_page_def Let_def)

lemma dispatchEvent_idle_wait_state:
  assumes "type \<noteq> ''Network.requestWillBeSent''"
  shows "dispatchEvent type (idle_wait_state t c k f l) = idle_wait_state t c k f l"
proof -
  have r: "requestFinished (idle_wait_state t c k f l) = idle_wait_state t c k f l"
    by (simp add: requestFinished_def idle_wait_state_def)
  have m: "(''Network.loadingFailed'', RequestFinished) \<in> set (listeners (idle_wait_state t c k f l))"
    "(''Network.loadingFinished'', RequestFinished) \<in> set (listeners (idle_wait_state t c k f l))"
    by (simp_all add: idle_wait_state_def)
  have cbs: "map snd (filter (\<lambda>x. fst x = type) (listeners (idle_wait_state t c k f l))) =
      (if type = ''Network.loadingFailed'' \<or> type = ''Network.loadingFinished''
       then [RequestFinished] else [])"
    using assms by (auto simp: idle_wait_state_def)
  show ?thesis
    unfolding dispatchEvent_def cbs using r m by (auto simp: invoke_def)
qed

lemma fire_idle_timer:
  "fire (0, t, TimeoutDone) (idle_wait_state t c k False l) = idle_wait_state t c (max k t) True l"
  by (cases l)
     (simp_all add: fire_def idle_wait_state_def clearTimeout_def timeoutDone_def
       removeEventListener_def resolve_idle_def idle_deadline_settled_def clearDeadline_def
       navigation_deadline_settled_def)

lemma fire_deadline_timer:
  "fire (Suc 0, timeout_ms, DeadlineTimer IdleWait) (idle_wait_state t c k False False)
     = idle_wait_state t c (max k timeout_ms) False True"
  by (simp add: fire_def idle_wait_state_def clearTimeout_def idle_deadline_settled_def)

lemma fire_disarmed:
  "fire (0, t, TimeoutDone) (idle_wait_state t c k True l) = idle_wait_state t c k True l"
  "fire (Suc 0, timeout_ms, DeadlineTimer IdleWait) (idle_wait_state t c k True l)
     = idle_wait_state t c k True l"
  "fire (Suc 0, timeout_ms, DeadlineTimer IdleWait) (idle_wait_state t c k f True)
     = idle_wait_state t c k f True"
  by (simp_all add: fire_def idle_wait_state_def)

lemma clock_idle_wait_state [simp]:
  "clock (idle_wait_state t c k f l) = k"
  "(idle_wait_state t c k f l)\<lparr>clock := k'\<rparr> = idle_wait_state t c k' f l"
  by (simp_all add: idle_wait_state_def)

lemma timers_idle_wait_state:
  "timers (idle_wait_state t c k f l) =
     (if f then [] else [(0, t, TimeoutDone)]) @
     (if f \<or> l then [] else [(1, timeout_ms, DeadlineTimer IdleWait)])"
  by (simp add: idle_wait_state_def)

lemma elapse_idle_wait_state:
  "elapse d (idle_wait_state t c k f l) =
     idle_wait_state t c (k + d) (f \<or> t \<le> k + d)
       (l \<or> (\<not> f \<and> timeout_ms \<le> k + d \<and> (t \<le> timeout_ms \<longrightarrow> k + d < t)))"
proof (cases f)
  case True
  then show ?thesis by (simp add: elapse_def timers_idle_wait_state)
next
  case nf: False
  show ?thesis
  proof (cases l)
    case True
    with nf show ?thesis
      by (cases "t \<le> k + d") (simp_all add: elapse_def timers_idle_wait_state fire_idle_timer)
  next
    case nl: False
    consider (none) "k + d < t" "k + d < timeout_ms"
      | (idle) "t \<le> k + d" "k + d < timeout_ms"
      | (dead) "k + d < t" "timeout_ms \<le> k + d"
      | (both) "t \<le> k + d" "timeout_ms \<le> k + d" "t \<le> timeout_ms"
      | (late) "t \<le> k + d" "timeout_ms \<le> k + d" "timeout_ms < t"
      by linarith
    then show ?thesis
    proof cases
      case none
      with nf nl show ?thesis by (simp add: elapse_def timers_idle_wait_state)
    next
      case idle
      with nf nl show ?thesis
        by (simp add: elapse_def timers_idle_wait_state fire_idle_timer)
    next
      case dead
      with nf nl show ?thesis
        by (simp add: elapse_def timers_idle_wait_state fire_deadline_timer)
    next
      case both
      with nf nl show ?thesis
        by (simp add: elapse_def timers_idle_wait_state fire_idle_timer fire_disarmed)
    next
      case late
      with nf nl show ?thesis
        by (simp add: elapse_def timers_idle_wait_state fire_idle_timer fire_deadline_timer)
    qed
  qed
qed

lemma step_idle_wait_state:
  assumes "i \<noteq> Deliver ''Network.requestWillBeSent''"
  shows "\<exists>f' l'. step i (idle_wait_state t c k f l) = idle_wait_state t c (k + elapsed [i]) f' l' \<and>
           (f \<longrightarrow> f') \<and> (l' \<longrightarrow> l \<or> timeout_ms < t) \<and> (t \<le> k + elapsed [i] \<and> i \<noteq> Response \<and> (\<forall>n. i \<noteq> Deliver n) \<longrightarrow> f')"
proof (cases i)
  case (Deliver n)
  with assms dispatchEvent_idle_wait_state[of n t c k f l] show ?thesis by auto
next
  case Response
  have "command_settled Resolved (idle_wait_state t c k f l) = idle_wait_state t c k f l"
    by (simp add: command_settled_def idle_wait_state_def)
  with Response show ?thesis by auto
next
  case (Elapse d)
  let ?f = "f \<or> t \<le> k + d"
  let ?l = "l \<or> (\<not> f \<and> timeout_ms \<le> k + d \<and> (t \<le> timeout_ms \<longrightarrow> k + d < t))"
  have "step i (idle_wait_state t c k f l) = idle_wait_state t c (k + elapsed [i]) ?f ?l"
    using Elapse elapse_idle_wait_state[of d t c k f l] by simp
  moreover have "f \<longrightarrow> ?f" by simp
  moreover have "?l \<longrightarrow> l \<or> timeout_ms < t" by auto
  moreover have "t \<le> k + elapsed [i] \<and> i \<noteq> Response \<and> (\<forall>n. i \<noteq> Deliver n) \<longrightarrow> ?f"
    using Elapse by simp
  ultimately show ?thesis by blast
qed

lemma run_idle_wait_state:
  assumes "Deliver ''Network.requestWillBeSent'' \<notin> set ins" and "l \<longrightarrow> timeout_ms < t"
  shows "\<exists>f' l'. run ins (idle_wait_state t c k f l) = idle_wait_state t c (k + elapsed ins) f' l' \<and>
           (f \<longrightarrow> f') \<and> (l' \<longrightarrow> timeout_ms < t)"
  using assms
proof (induction ins arbitrary: k f l)
  case Nil
  then show ?case by (auto simp: run_def)
next
  case (Cons i ins)
  from Cons.prems(1) have i: "i \<noteq> Deliver ''Network.requestWillBeSent''" by auto
  from step_idle_wait_state[OF i, of t c k f l] obtain f1 l1 where
    1: "step i (idle_wait_state t c k f l) = idle_wait_state t c (k + elapsed [i]) f1 l1"
    "f \<longrightarrow> f1" "l1 \<longrightarrow> l \<or> timeout_ms < t" by blast
  from Cons.prems(1) have q: "Deliver ''Network.requestWillBeSent'' \<notin> set ins" by simp
  from 1(3) Cons.prems(2) have l1: "l1 \<longrightarrow> timeout_ms < t" by blast
  from Cons.IH[OF q l1, of "k + elapsed [i]" f1] obtain f2 l2 where
    2: "run ins (idle_wait_state t c (k + elapsed [i]) f1 l1)
        = idle_wait_state t c (k + elapsed [i] + elapsed ins) f2 l2"
    "f1 \<longrightarrow> f2" "l2 \<longrightarrow> timeout_ms < t" by blast
  have e: "k + elapsed [i] + elapsed ins = k + elapsed (i # ins)" by (cases i) simp_all
  have "run (i # ins) (idle_wait_state t c k f l) = idle_wait_state t c (k + elapsed (i # ins)) f2 l2"
    using 1(1) 2(1) e by (simp add: run_def)
  with 1(2) 2(2,3) show ?case by blast
qed


text \<open>
  Claim C10. Each call of \<^verbatim>\<open>waitForNetworkIdle\<close> starts its in-flight counter at zero,
  so requests under way when the wait starts are not counted: when no request-started
  event is delivered, whatever finish and fail events of earlier requests arrive, the
  promise of the wait is resolved once the idle time has passed. The promise the caller
  holds is resolved with it when the idle time is shorter than the page's timeout, under
  which every wait runs.
\<close>

theorem idle_wait_counts_from_zero:
  assumes "idle (start (WaitForNetworkIdle options) new_page) = Some v0"
    and "Deliver ''Network.requestWillBeSent'' \<notin> set ins"
    and "idleTime v0 \<le> elapsed ins + d"
  shows "inflight v0 = 0 \<and>
         idleTime v0 = (case options of None \<Rightarrow> 500
                        | Some opts \<Rightarrow> (case opt_idleTime opts of None \<Rightarrow> 500 | Some x \<Rightarrow> x)) \<and>
         map_option idle_promise
           (idle (run (ins @ [Elapse d]) (start (WaitForNetworkIdle options) new_page)))
           = Some Resolved \<and>
         (idleTime v0 < timeout_ms \<longrightarrow>
            map_option idle_deadline
              (idle (run (ins @ [Elapse d]) (start (WaitForNetworkIdle options) new_page)))
              = Some Resolved)"
proof -
  define t where "t = (case options of None \<Rightarrow> 500
        | Some opts \<Rightarrow> (case opt_idleTime opts of None \<Rightarrow> 500 | Some x \<Rightarrow> x))"
  define c where "c = (case options of None \<Rightarrow> 0
        | Some opts \<Rightarrow> (case opt_idleConnections opts of None \<Rightarrow> 0 | Some x \<Rightarrow> x))"
  have s0: "start (WaitForNetworkIdle options) new_page = idle_wait_state t c 0 False False"
    unfolding t_def c_def by (rule start_idle_wait_state)
  with assms(1) have v0: "inflight v0 = 0" "idleTime v0 = t"
    by (auto simp: idle_wait_state_def)
  from run_idle_wait_state[OF assms(2), of False t c 0 False] obtain f1 l1 where
    1: "run ins (idle_wait_state t c 0 False False) = idle_wait_state t c (elapsed ins) f1 l1"
    "l1 \<longrightarrow> timeout_ms < t" by auto
  let ?f = "f1 \<or> t \<le> elapsed ins + d"
  let ?l = "l1 \<or> (\<not> f1 \<and> timeout_ms \<le> elapsed ins + d \<and> (t \<le> timeout_ms \<longrightarrow> elapsed ins + d < t))"
  have "run (ins @ [Elapse d]) (start (WaitForNetworkIdle options) new_page)
      = elapse d (run ins (idle_wait_state t c 0 False False))"
    unfolding s0 by (simp add: run_def)
  also have "\<dots> = idle_wait_state t c (elapsed ins + d) ?f ?l"
    unfolding 1(1) by (rule elapse_idle_wait_state)
  finally have r: "run (ins @ [Elapse d]) (start (WaitForNetworkIdle options) new_page)
      = idle_wait_state t c (elapsed ins + d) ?f ?l" .
  have f: "?f" using assms(3) v0(2) by simp
  have l: "t < timeout_ms \<longrightarrow> \<not> ?l" using 1(2) assms(3) v0(2) by auto
  have p: "map_option idle_promise (idle (idle_wait_state t c (elapsed ins + d) ?f ?l)) = Some Resolved"
    using f by (simp add: idle_wait_state_def)
  have q: "t < timeout_ms \<longrightarrow>
      map_option idle_deadline (idle (idle_wait_state t c (elapsed ins + d) ?f ?l)) = Some Resolved"
    using f l by (simp add: idle_wait_state_def)
  from v0 p q show ?thesis unfolding r t_def by simp
qed

text \<open>
  With the defaults, on a page where two earlier requests end during the wait: the
  counter starts at zero and after 500 milliseconds the wait has resolved.
\<close>

theorem idle_wait_counts_from_zero_witness:
  "idle (start (WaitForNetworkIdle None) new_page)
     = Some \<lparr>idleTime = 500, idleConnections = 0, timeout = 0, inflight = 0,
              idle_promise = Pending, idle_deadline = Pending\<rparr> \<and>
   map_option idle_promise (idle (run
       ([Deliver ''Network.loadingFinished'', Elapse 200, Deliver ''Network.loadingFailed'']
          @ [Elapse 300])
       (start (WaitForNetworkIdle None) new_page))) = Some Resolved \<and>
   map_option idle_deadline (idle (run
       ([Deliver ''Network.loadingFinished'', Elapse 200, Deliver ''Network.loadingFailed'']
          @ [Elapse 300])
       (start (WaitForNetworkIdle None) new_page))) = Some Resolved"
proof -
  let ?v = "\<lparr>idleTime = 500, idleConnections = 0, timeout = 0, inflight = 0,
              idle_promise = Pending, idle_deadline = Pending\<rparr>"
  let ?ins = "[Deliver ''Network.loadingFinished'', Elapse 200, Deliver ''Network.loadingFailed'']"
  have v: "idle (start (WaitForNetworkIdle None) new_page) = Some ?v"
    by (simp add: loop_defs)
  have q: "Deliver ''Network.requestWillBeSent'' \<notin> set ?ins" by simp
  have e: "idleTime ?v \<le> elapsed ?ins + 300" by simp
  from idle_wait_counts_from_zero[OF v q e] v show ?thesis
    by (simp add: timeout_ms_def)
qed

end
